theory Spec2Isabelle
  imports Main
begin

section \<open>Data model\<close>

text \<open>
  The embedded program is the axios instance of \<^verbatim>\<open>services/axsiox\<close> (the second document of
  \<^verbatim>\<open>src/unnamed/part_000\<close>, lines 204-287) together with \<^verbatim>\<open>utilities/setAxiosHeader.ts\<close> and
  \<^verbatim>\<open>utilities/getToken\<close>. JavaScript runs the handlers one at a time; a handler runs without
  interruption until it returns or reaches an \<^verbatim>\<open>await\<close>. Each such uninterrupted run is one
  function on an explicit state below.
\<close>

text \<open>
  The values of \<^verbatim>\<open>response?.data?.token\<close> and \<^verbatim>\<open>response?.data?.refreshToken\<close> handed to
  \<^verbatim>\<open>localStorage.setItem\<close>, which stores the string conversion of its argument: a missing field
  is stored as \<^verbatim>\<open>"undefined"\<close>, a JSON null as \<^verbatim>\<open>"null"\<close>. Tokens that are neither strings nor null
  are left out.
\<close>

datatype jsval = Undefined | Null | Str string

fun String_of :: "jsval \<Rightarrow> string" where
  "String_of Undefined = ''undefined''"
| "String_of Null = ''null''"
| "String_of (Str s) = s"

record AxiosRequestConfig =
  http_method :: string
  url :: string
  headers :: "string \<rightharpoonup> string"
  data :: "(string \<times> string) list"

record AxiosResponse =
  status :: int
  data_token :: jsval
  data_refreshToken :: jsval

text \<open>\<^verbatim>\<open>error.config\<close> and \<^verbatim>\<open>error.response\<close>; a failure without an HTTP answer has no response.\<close>

record AxiosError =
  config :: AxiosRequestConfig
  response :: "AxiosResponse option"

datatype outcome = Fulfilled AxiosResponse | Rejected AxiosError

text \<open>
  A promise that something in the program still has to settle.
  \<open>Caller n\<close> is the promise \<^verbatim>\<open>axiosInstance(...)\<close> returned to application code for its \<open>n\<close>-th
  call. \<open>LeaderThen\<close> is the promise of the \<^verbatim>\<open>.then(async (response) => ...)\<close> callback of lines
  248-255, which follows the request retried there; the \<^verbatim>\<open>await\<close> of line 238 waits for it.
\<close>

datatype promise_ref = Caller nat | LeaderThen

text \<open>
  \<^verbatim>\<open>RetryQueueItem\<close>: \<^verbatim>\<open>resolve\<close> and \<^verbatim>\<open>reject\<close> are the two callbacks of one promise (the one the
  handler returned at line 279), so the pair is represented by that promise.
\<close>

record RetryQueueItem =
  resolve_reject :: promise_ref
  qconfig :: AxiosRequestConfig

text \<open>Where a suspended leader waits: for the refresh POST, or for its own retried request.\<close>

datatype phase = AwaitRefresh | AwaitRetry

text \<open>
  The module state (\<open>isRefreshing\<close>, \<open>refreshAndRetryQueue\<close>), the browser state the code
  touches (\<open>localStorage\<close>, assignments to \<^verbatim>\<open>window.location.href\<close>, \<^verbatim>\<open>console.log\<close>), and the
  observable effects: the calls of the global \<^verbatim>\<open>Axios(...)\<close> (the refresh POSTs, which pass no
  interceptor), the requests \<^verbatim>\<open>axiosInstance\<close> handed to the network in the order they were sent
  (a request is named by its position in \<open>requests\<close>), the requests not answered yet with the
  promise the outcome of each will settle (\<open>inflight\<close>), and every callback invoked on a
  caller's promise (\<open>settled\<close>).
  \<open>leader\<close> holds the closure of the handler suspended at the \<^verbatim>\<open>await\<close>: its \<^verbatim>\<open>error\<close> and the
  promise it will return.
\<close>

record state =
  isRefreshing :: bool
  refreshAndRetryQueue :: "RetryQueueItem list"
  localStorage :: "string \<rightharpoonup> string"
  navigated :: "string list"
  console :: "AxiosError list"
  axios_posts :: "AxiosRequestConfig list"
  requests :: "AxiosRequestConfig list"
  inflight :: "(nat \<times> promise_ref) list"
  settled :: "(nat \<times> outcome) list"
  leader :: "(AxiosError \<times> promise_ref \<times> phase) option"
  ncalls :: nat

section \<open>Credential helpers and the request interceptor\<close>

text \<open>
  \<^verbatim>\<open>getToken\<close> and \<^verbatim>\<open>getRefreshToken\<close>: \<^verbatim>\<open>if (token) return token; return null\<close>, where the empty
  string is falsy. \<^verbatim>\<open>setAxiosHeader\<close> sets the header only under \<^verbatim>\<open>if (token)\<close>; header names are
  taken as written.
\<close>

definition getToken :: "(string \<rightharpoonup> string) \<Rightarrow> string option" where
  "getToken ls =
     (case ls ''token'' of
        None \<Rightarrow> None
      | Some token \<Rightarrow> if token \<noteq> [] then Some token else None)"

definition getRefreshToken :: "(string \<rightharpoonup> string) \<Rightarrow> string option" where
  "getRefreshToken ls =
     (case ls ''refreshToken'' of
        None \<Rightarrow> None
      | Some refreshToken \<Rightarrow> if refreshToken \<noteq> [] then Some refreshToken else None)"

definition setAxiosHeader :: "(string \<rightharpoonup> string) \<Rightarrow> AxiosRequestConfig \<Rightarrow> AxiosRequestConfig" where
  "setAxiosHeader ls cfg =
     (case getToken ls of
        Some token \<Rightarrow> cfg\<lparr>headers := (headers cfg)(''Authorization'' \<mapsto> ''Bearer '' @ token)\<rparr>
      | None \<Rightarrow> cfg)"

text \<open>
  \<^verbatim>\<open>axiosInstance(config)\<close>: the request interceptor (lines 212-217) sets the header from the
  store, then the request goes out. \<open>p\<close> is the promise the outcome of the request will settle.
  The interceptor runs in a later microtask than the call, but before any other event, and no
  statement of the handler between a call and its end writes the store: reading the store at
  the call gives the header the request goes out with.
\<close>

definition axiosInstance :: "AxiosRequestConfig \<Rightarrow> promise_ref \<Rightarrow> state \<Rightarrow> state" where
  "axiosInstance cfg p st =
     st\<lparr>requests := requests st @ [setAxiosHeader (localStorage st) cfg],
        inflight := inflight st @ [(length (requests st), p)]\<rparr>"

section \<open>The response error handler\<close>

text \<open>\<^verbatim>\<open>error.response && error.response.status === 401\<close> (line 232).\<close>

definition is401 :: "AxiosError \<Rightarrow> bool" where
  "is401 error = (case response error of None \<Rightarrow> False | Some r \<Rightarrow> status r = 401)"

text \<open>The refresh call of lines 238-247.\<close>

definition refreshRequest :: "string \<Rightarrow> AxiosRequestConfig" where
  "refreshRequest refreshToken =
     \<lparr>http_method = ''POST'', url = ''api/v1/auth/refreshtoken'',
      headers = [''Content-Type'' \<mapsto> ''application/json''],
      data = [(''refreshToken'', refreshToken)]\<rparr>"

text \<open>
  Lines 230-284 from the entry of the handler up to its first \<^verbatim>\<open>await\<close> or its \<^verbatim>\<open>return\<close>.
  \<open>p\<close> is the promise this invocation returns. The result is \<open>Some\<close> when the returned promise is
  already decided (\<^verbatim>\<open>Promise.reject(error)\<close>) and \<open>None\<close> when it stays pending: either the
  handler is suspended at the \<^verbatim>\<open>await\<close> of line 238 (it is then recorded in \<open>leader\<close>), or its
  callbacks were pushed on the queue (line 280). The missing-token branch returns inside the
  \<^verbatim>\<open>try\<close>, so the \<^verbatim>\<open>finally\<close> of line 276 runs before the handler leaves.
\<close>

definition onRejected :: "AxiosError \<Rightarrow> promise_ref \<Rightarrow> state \<Rightarrow> outcome option \<times> state" where
  "onRejected error p st =
     (let originalRequest = config error in
      if is401 error then
        if \<not> isRefreshing st then
          (let st1 = st\<lparr>isRefreshing := True\<rparr> in
           case getRefreshToken (localStorage st1) of
             Some refreshToken \<Rightarrow>
               (None, st1\<lparr>axios_posts := axios_posts st1 @ [refreshRequest refreshToken],
                          leader := Some (error, p, AwaitRefresh)\<rparr>)
           | None \<Rightarrow>
               (Some (Rejected error),
                st1\<lparr>localStorage := Map.empty, navigated := navigated st1 @ [''/''],
                    isRefreshing := False\<rparr>))
        else
          (None, st\<lparr>refreshAndRetryQueue := refreshAndRetryQueue st @
                       [\<lparr>resolve_reject = p, qconfig = originalRequest\<rparr>]\<rparr>)
      else (Some (Rejected error), st))"

text \<open>
  The \<^verbatim>\<open>.then\<close> callback of lines 248-255: store both tokens, retry the leader's request. Its
  promise (\<open>LeaderThen\<close>) follows the retried request.
\<close>

definition refresh_then :: "AxiosRequestConfig \<Rightarrow> AxiosResponse \<Rightarrow> state \<Rightarrow> state" where
  "refresh_then originalRequest r st =
     (let st1 = st\<lparr>localStorage := (localStorage st)(''token'' \<mapsto> String_of (data_token r))\<rparr>;
          st2 = st1\<lparr>localStorage :=
                      (localStorage st1)(''refreshToken'' \<mapsto> String_of (data_refreshToken r))\<rparr>
      in axiosInstance originalRequest LeaderThen st2)"

text \<open>
  The \<^verbatim>\<open>.catch\<close> callback of lines 256-259. It is chained after the \<^verbatim>\<open>.then\<close>, so it receives a
  rejection of the refresh POST and also a rejection of the request retried in the \<^verbatim>\<open>.then\<close>.
\<close>

definition refresh_catch :: "AxiosError \<Rightarrow> state \<Rightarrow> state" where
  "refresh_catch errorRefresh st =
     st\<lparr>console := console st @ [errorRefresh], localStorage := Map.empty\<rparr>"

text \<open>Lines 261-266: replay every queued request in queue order, then empty the queue.\<close>

definition drain :: "state \<Rightarrow> state" where
  "drain st =
     (foldl (\<lambda>s item. axiosInstance (qconfig item) (resolve_reject item) s) st
        (refreshAndRetryQueue st))\<lparr>refreshAndRetryQueue := []\<rparr>"

text \<open>
  Lines 276-281, reached after the \<^verbatim>\<open>try\<close> block ends without a \<^verbatim>\<open>return\<close>: the \<^verbatim>\<open>finally\<close>, then the
  statement after the \<^verbatim>\<open>if (!isRefreshing)\<close> block, which pushes the handler's own callbacks and
  returns the pending promise.
\<close>

definition finally_push :: "AxiosError \<Rightarrow> promise_ref \<Rightarrow> state \<Rightarrow> state" where
  "finally_push error p st =
     (let st1 = st\<lparr>isRefreshing := False\<rparr> in
      st1\<lparr>refreshAndRetryQueue := refreshAndRetryQueue st1 @
             [\<lparr>resolve_reject = p, qconfig = config error\<rparr>],
          leader := None\<rparr>)"

text \<open>The handler from the point where the \<^verbatim>\<open>await\<close> of line 238 returns to its end.\<close>

definition resume :: "AxiosError \<Rightarrow> promise_ref \<Rightarrow> state \<Rightarrow> state" where
  "resume error p st = finally_push error p (drain st)"

text \<open>
  The handler from the \<^verbatim>\<open>catch\<close> block of lines 272-275 to its end: entered when a statement of
  the \<^verbatim>\<open>try\<close> block throws.
\<close>

definition catch_block :: "AxiosError \<Rightarrow> promise_ref \<Rightarrow> state \<Rightarrow> state" where
  "catch_block error p st =
     finally_push error p (st\<lparr>refreshAndRetryQueue := [], localStorage := Map.empty\<rparr>)"

section \<open>The event loop\<close>

text \<open>
  Settling a promise. A caller's promise records the callback. When \<open>LeaderThen\<close> is settled the
  suspended leader goes on: a fulfilment passes the \<^verbatim>\<open>.catch\<close> and the \<^verbatim>\<open>await\<close> returns; a
  rejection runs the \<^verbatim>\<open>.catch\<close> callback first.
\<close>

definition settle :: "promise_ref \<Rightarrow> outcome \<Rightarrow> state \<Rightarrow> state" where
  "settle p out st =
     (case p of
        Caller n \<Rightarrow> st\<lparr>settled := settled st @ [(n, out)]\<rparr>
      | LeaderThen \<Rightarrow>
          (case leader st of
             Some (error, q, AwaitRetry) \<Rightarrow>
               (case out of
                  Fulfilled r \<Rightarrow> resume error q st
                | Rejected e \<Rightarrow> resume error q (refresh_catch e st))
           | _ \<Rightarrow> st))"

definition promise_of :: "nat \<Rightarrow> state \<Rightarrow> promise_ref option" where
  "promise_of i st = (if i < length (requests st) then map_of (inflight st) i else None)"

definition answered :: "nat \<Rightarrow> state \<Rightarrow> state" where
  "answered i st = st\<lparr>inflight := filter (\<lambda>x. fst x \<noteq> i) (inflight st)\<rparr>"

text \<open>
  What can happen: application code calls \<^verbatim>\<open>axiosInstance(config)\<close>; the network answers request
  \<open>i\<close> with a response (the success handler of line 229 returns it) or fails it (the error
  carries the request's config and possibly a response, and the handler of line 230 runs); the
  refresh POST is answered or fails. An answer to a request that is not in flight, or to a
  refresh POST nobody waits for, is no event of the program: the state stays as it is.
\<close>

datatype event =
    Call AxiosRequestConfig
  | Reply nat AxiosResponse
  | Fail nat "AxiosResponse option"
  | RefreshReply AxiosResponse
  | RefreshFail AxiosError

definition step :: "event \<Rightarrow> state \<Rightarrow> state" where
  "step ev st =
     (case ev of
        Call cfg \<Rightarrow> axiosInstance cfg (Caller (ncalls st)) (st\<lparr>ncalls := Suc (ncalls st)\<rparr>)
      | Reply i r \<Rightarrow>
          (case promise_of i st of
             None \<Rightarrow> st
           | Some p \<Rightarrow> settle p (Fulfilled r) (answered i st))
      | Fail i ro \<Rightarrow>
          (case promise_of i st of
             None \<Rightarrow> st
           | Some p \<Rightarrow>
               (let error = \<lparr>config = requests st ! i, response = ro\<rparr>;
                    res = onRejected error p (answered i st)
                in case fst res of None \<Rightarrow> snd res | Some out \<Rightarrow> settle p out (snd res)))
      | RefreshReply r \<Rightarrow>
          (case leader st of
             Some (error, p, AwaitRefresh) \<Rightarrow>
               (refresh_then (config error) r st)\<lparr>leader := Some (error, p, AwaitRetry)\<rparr>
           | _ \<Rightarrow> st)
      | RefreshFail e \<Rightarrow>
          (case leader st of
             Some (error, p, AwaitRefresh) \<Rightarrow> resume error p (refresh_catch e st)
           | _ \<Rightarrow> st))"

definition run :: "event list \<Rightarrow> state \<Rightarrow> state" where
  "run evs st = foldl (\<lambda>s ev. step ev s) st evs"

text \<open>The state when the module is loaded, with whatever the browser's store holds.\<close>

definition init :: "(string \<rightharpoonup> string) \<Rightarrow> state" where
  "init ls =
     \<lparr>isRefreshing = False, refreshAndRetryQueue = [], localStorage = ls, navigated = [],
      console = [], axios_posts = [], requests = [], inflight = [], settled = [],
      leader = None, ncalls = 0\<rparr>"

text \<open>
  Concurrent failures: several failures handled one after the other with nothing in between
  (no answer to a refresh POST or to any request). Each entry is the error and the promise its
  handler returns.
\<close>

definition arrive :: "(AxiosError \<times> promise_ref) list \<Rightarrow> state \<Rightarrow> state" where
  "arrive fs st = foldl (\<lambda>s f. snd (onRejected (fst f) (snd f) s)) st fs"

section \<open>Ownership of promises\<close>

text \<open>
  Who still owes a promise its outcome: a request in flight, an entry of the queue, or the
  suspended leader (which returns its promise at the end of its run).
\<close>

definition lead :: "state \<Rightarrow> promise_ref list" where
  "lead st = (case leader st of None \<Rightarrow> [] | Some f \<Rightarrow> [fst (snd f)])"

definition held :: "state \<Rightarrow> promise_ref list" where
  "held st = map snd (inflight st) @ map resolve_reject (refreshAndRetryQueue st) @ lead st"

text \<open>
  The well-formedness of a state, with the promises \<open>hand\<close> held by the handler that is
  running: no promise is owed twice; every request in flight was sent; the flag is set exactly
  while a leader is suspended; \<open>LeaderThen\<close> exists only while the leader waits for its retried
  request; no caller's promise had two callbacks invoked; a promise still owed belongs to a call
  that was made and has not been settled.
\<close>

definition wfh :: "promise_ref list \<Rightarrow> state \<Rightarrow> bool" where
  "wfh hand st \<longleftrightarrow>
     distinct (hand @ held st)
   \<and> (\<forall>x\<in>set (inflight st). fst x < length (requests st))
   \<and> (isRefreshing st \<longleftrightarrow> leader st \<noteq> None)
   \<and> (LeaderThen \<in> set (hand @ held st) \<longrightarrow> (\<exists>e p. leader st = Some (e, p, AwaitRetry)))
   \<and> distinct (map fst (settled st))
   \<and> (\<forall>n. Caller n \<in> set (hand @ held st) \<longrightarrow> n < ncalls st \<and> n \<notin> fst ` set (settled st))
   \<and> (\<forall>x\<in>set (settled st). fst x < ncalls st)"

text \<open>What the suspended leader waits for, if there is one.\<close>

definition phase_of :: "state \<Rightarrow> phase option" where
  "phase_of st = map_option (\<lambda>f. snd (snd f)) (leader st)"

text \<open>
  A leader that waits for its retried request while no request in flight will settle
  \<open>LeaderThen\<close>: the promise it waits for can only be in the queue, which only a leader drains.
\<close>

definition blocked :: "promise_ref \<Rightarrow> state \<Rightarrow> bool" where
  "blocked p st \<longleftrightarrow>
     isRefreshing st \<and> phase_of st = Some AwaitRetry \<and> lead st = [p] \<and>
     LeaderThen \<notin> set (map snd (inflight st))"

section \<open>Example values\<close>

text \<open>The call of \<^verbatim>\<open>App.tsx\<close>, answers by status, a refresh answer, and a store of a signed-in user.\<close>

definition getData :: "string \<Rightarrow> AxiosRequestConfig" where
  "getData u = \<lparr>http_method = ''get'', url = u, headers = Map.empty, data = []\<rparr>"

definition answer :: "int \<Rightarrow> AxiosResponse" where
  "answer s = \<lparr>status = s, data_token = Undefined, data_refreshToken = Undefined\<rparr>"

definition refreshed :: "string \<Rightarrow> string \<Rightarrow> AxiosResponse" where
  "refreshed t r = \<lparr>status = 200, data_token = Str t, data_refreshToken = Str r\<rparr>"

definition signed_in :: "string \<rightharpoonup> string" where
  "signed_in = [''token'' \<mapsto> ''T1'', ''refreshToken'' \<mapsto> ''R1'']"

definition failed :: "string \<Rightarrow> int \<Rightarrow> AxiosError" where
  "failed u s = \<lparr>config = getData u, response = Some (answer s)\<rparr>"

text \<open>
  Event lists: one call that fails with 401 and becomes the leader; two calls that fail with
  401, the first becoming the leader and the second a follower. And a refused refresh POST.
\<close>

definition lone_leader :: "event list" where
  "lone_leader = [Call (getData ''/api/data''), Fail 0 (Some (answer 401))]"

definition leader_and_follower :: "event list" where
  "leader_and_follower =
     [Call (getData ''/a''), Call (getData ''/b''),
      Fail 0 (Some (answer 401)), Fail 1 (Some (answer 401))]"

definition refresh_refused :: AxiosError where
  "refresh_refused = \<lparr>config = refreshRequest ''R1'', response = Some (answer 400)\<rparr>"

section \<open>The handler, case by case\<close>

lemma onRejected_follower:
  "is401 error \<Longrightarrow> isRefreshing st \<Longrightarrow>
   onRejected error p st =
     (None, st\<lparr>refreshAndRetryQueue := refreshAndRetryQueue st @
                 [\<lparr>resolve_reject = p, qconfig = config error\<rparr>]\<rparr>)"
  by (simp add: onRejected_def)

lemma onRejected_leader:
  "is401 error \<Longrightarrow> \<not> isRefreshing st \<Longrightarrow> getRefreshToken (localStorage st) = Some rt \<Longrightarrow>
   onRejected error p st =
     (None, st\<lparr>isRefreshing := True, axios_posts := axios_posts st @ [refreshRequest rt],
                leader := Some (error, p, AwaitRefresh)\<rparr>)"
  by (simp add: onRejected_def)

lemma onRejected_no_token:
  "is401 error \<Longrightarrow> \<not> isRefreshing st \<Longrightarrow> getRefreshToken (localStorage st) = None \<Longrightarrow>
   onRejected error p st =
     (Some (Rejected error),
      st\<lparr>isRefreshing := False, localStorage := Map.empty, navigated := navigated st @ [''/'']\<rparr>)"
  by (simp add: onRejected_def)

lemma arrive_Nil: "arrive [] st = st"
  by (simp add: arrive_def)

lemma arrive_Cons: "arrive (f # fs) st = arrive fs (snd (onRejected (fst f) (snd f) st))"
  by (simp add: arrive_def)

lemma arrive_followers:
  "isRefreshing st \<Longrightarrow> list_all (\<lambda>f. is401 (fst f)) fs \<Longrightarrow>
   arrive fs st =
     st\<lparr>refreshAndRetryQueue := refreshAndRetryQueue st @
          map (\<lambda>f. \<lparr>resolve_reject = snd f, qconfig = config (fst f)\<rparr>) fs\<rparr>"
proof (induction fs arbitrary: st)
  case Nil
  then show ?case by (simp add: arrive_Nil)
next
  case (Cons f fs)
  then show ?case by (simp add: arrive_Cons onRejected_follower)
qed

lemma upt_shift: "[n..<Suc (n + m)] = n # [Suc n..<Suc (n + m)]"
  by (simp add: upt_conv_Cons del: upt_Suc)

lemma foldl_replay:
  "foldl (\<lambda>s item. axiosInstance (qconfig item) (resolve_reject item) s) st q =
   st\<lparr>requests := requests st @ map (\<lambda>item. setAxiosHeader (localStorage st) (qconfig item)) q,
      inflight := inflight st @
        zip [length (requests st)..<length (requests st) + length q] (map resolve_reject q)\<rparr>"
proof (induction q arbitrary: st)
  case Nil
  show ?case by simp
next
  case (Cons item q)
  have "foldl (\<lambda>s item. axiosInstance (qconfig item) (resolve_reject item) s) st (item # q) =
        foldl (\<lambda>s item. axiosInstance (qconfig item) (resolve_reject item) s)
          (axiosInstance (qconfig item) (resolve_reject item) st) q"
    by simp
  also have "\<dots> = st\<lparr>requests := requests st @
          map (\<lambda>item. setAxiosHeader (localStorage st) (qconfig item)) (item # q),
      inflight := inflight st @
        zip [length (requests st)..<length (requests st) + length (item # q)]
          (map resolve_reject (item # q))\<rparr>"
    unfolding Cons.IH by (simp add: axiosInstance_def upt_shift del: upt_Suc)
  finally show ?case .
qed

lemma drain_eq:
  "drain st =
   st\<lparr>requests := requests st @
        map (\<lambda>item. setAxiosHeader (localStorage st) (qconfig item)) (refreshAndRetryQueue st),
      inflight := inflight st @
        zip [length (requests st)..<length (requests st) + length (refreshAndRetryQueue st)]
          (map resolve_reject (refreshAndRetryQueue st)),
      refreshAndRetryQueue := []\<rparr>"
  by (simp add: drain_def foldl_replay)

lemma resume_eq:
  "resume error p st =
   st\<lparr>requests := requests st @
        map (\<lambda>item. setAxiosHeader (localStorage st) (qconfig item)) (refreshAndRetryQueue st),
      inflight := inflight st @
        zip [length (requests st)..<length (requests st) + length (refreshAndRetryQueue st)]
          (map resolve_reject (refreshAndRetryQueue st)),
      refreshAndRetryQueue := [\<lparr>resolve_reject = p, qconfig = config error\<rparr>],
      isRefreshing := False, leader := None\<rparr>"
  by (simp add: resume_def drain_eq finally_push_def)


lemma wfhI:
  assumes "distinct (hand @ held st)"
    and "\<And>x. x \<in> set (inflight st) \<Longrightarrow> fst x < length (requests st)"
    and "isRefreshing st \<longleftrightarrow> leader st \<noteq> None"
    and "LeaderThen \<in> set hand \<union> set (held st) \<Longrightarrow> \<exists>e p. leader st = Some (e, p, AwaitRetry)"
    and "distinct (map fst (settled st))"
    and "\<And>n. Caller n \<in> set hand \<union> set (held st) \<Longrightarrow> n < ncalls st \<and> n \<notin> fst ` set (settled st)"
    and "\<And>x. x \<in> set (settled st) \<Longrightarrow> fst x < ncalls st"
  shows "wfh hand st"
  unfolding wfh_def
proof (intro conjI)
  show "distinct (hand @ held st)" by (rule assms(1))
  show "\<forall>x\<in>set (inflight st). fst x < length (requests st)" using assms(2) by blast
  show "isRefreshing st = (leader st \<noteq> None)" by (rule assms(3))
  show "LeaderThen \<in> set (hand @ held st) \<longrightarrow> (\<exists>e p. leader st = Some (e, p, AwaitRetry))"
    using assms(4) by simp
  show "distinct (map fst (settled st))" by (rule assms(5))
  show "\<forall>n. Caller n \<in> set (hand @ held st) \<longrightarrow> n < ncalls st \<and> n \<notin> fst ` set (settled st)"
    using assms(6) by simp
  show "\<forall>x\<in>set (settled st). fst x < ncalls st" using assms(7) by blast
qed

lemma wfh_distinct: "wfh hand st \<Longrightarrow> distinct (hand @ held st)"
  by (simp add: wfh_def)

lemma wfh_range: "wfh hand st \<Longrightarrow> x \<in> set (inflight st) \<Longrightarrow> fst x < length (requests st)"
  unfolding wfh_def by blast

lemma wfh_flag: "wfh hand st \<Longrightarrow> isRefreshing st \<longleftrightarrow> leader st \<noteq> None"
  unfolding wfh_def by blast

lemma wfh_then:
  "wfh hand st \<Longrightarrow> LeaderThen \<in> set hand \<union> set (held st) \<Longrightarrow>
   \<exists>e p. leader st = Some (e, p, AwaitRetry)"
  unfolding wfh_def by auto

lemma wfh_settled: "wfh hand st \<Longrightarrow> distinct (map fst (settled st))"
  unfolding wfh_def by blast

lemma wfh_caller:
  "wfh hand st \<Longrightarrow> Caller n \<in> set hand \<union> set (held st) \<Longrightarrow>
   n < ncalls st \<and> n \<notin> fst ` set (settled st)"
  unfolding wfh_def by auto

lemma wfh_bound: "wfh hand st \<Longrightarrow> x \<in> set (settled st) \<Longrightarrow> fst x < ncalls st"
  unfolding wfh_def by blast

text \<open>A step that moves promises around, possibly starting the leader's retry.\<close>

lemma wfh_transfer:
  assumes w: "wfh hand st"
    and d: "distinct (hand' @ held st')"
    and sub: "set hand' \<union> set (held st') \<subseteq> insert LeaderThen (set hand \<union> set (held st))"
    and r: "\<And>x. x \<in> set (inflight st') \<Longrightarrow> fst x < length (requests st')"
    and f: "isRefreshing st' \<longleftrightarrow> leader st' \<noteq> None"
    and t: "LeaderThen \<in> set hand' \<union> set (held st') \<Longrightarrow> \<exists>e p. leader st' = Some (e, p, AwaitRetry)"
    and s: "settled st' = settled st" and n: "ncalls st' = ncalls st"
  shows "wfh hand' st'"
proof (rule wfhI)
  show "distinct (hand' @ held st')" by (rule d)
  show "\<And>x. x \<in> set (inflight st') \<Longrightarrow> fst x < length (requests st')" by (rule r)
  show "isRefreshing st' = (leader st' \<noteq> None)" by (rule f)
  show "LeaderThen \<in> set hand' \<union> set (held st') \<Longrightarrow> \<exists>e p. leader st' = Some (e, p, AwaitRetry)"
    by (rule t)
  show "distinct (map fst (settled st'))" using wfh_settled [OF w] by (simp add: s)
  show "n < ncalls st' \<and> n \<notin> fst ` set (settled st')" if "Caller n \<in> set hand' \<union> set (held st')" for n
  proof -
    from that sub have "Caller n \<in> set hand \<union> set (held st)" by blast
    from wfh_caller [OF w this] show ?thesis by (simp add: s n)
  qed
  show "\<And>x. x \<in> set (settled st') \<Longrightarrow> fst x < ncalls st'"
    using wfh_bound [OF w] by (simp add: s n)
qed

lemma wfh_init: "wfh [] (init ls)"
  by (rule wfhI) (simp_all add: held_def lead_def init_def)

lemma wfh_Call:
  assumes w: "wfh [] st"
  shows "wfh [] (step (Call cfg) st)"
proof -
  let ?p = "Caller (ncalls st)"
  let ?st' = "axiosInstance cfg ?p (st\<lparr>ncalls := Suc (ncalls st)\<rparr>)"
  have new: "?p \<notin> set (held st)"
    using wfh_caller [OF w, of "ncalls st"] by auto
  have h: "held ?st' = map snd (inflight st) @ ?p # map resolve_reject (refreshAndRetryQueue st) @ lead st"
    by (simp add: held_def lead_def axiosInstance_def)
  have hs: "set (held ?st') = insert ?p (set (held st))"
    unfolding h by (auto simp add: held_def)
  have "wfh [] ?st'"
  proof (rule wfhI)
    show "distinct ([] @ held ?st')"
      using wfh_distinct [OF w] new unfolding h by (simp add: held_def)
    show "fst x < length (requests ?st')" if "x \<in> set (inflight ?st')" for x
      using that wfh_range [OF w, of x] by (auto simp add: axiosInstance_def)
    show "isRefreshing ?st' = (leader ?st' \<noteq> None)"
      using wfh_flag [OF w] by (simp add: axiosInstance_def)
    show "\<exists>e p. leader ?st' = Some (e, p, AwaitRetry)" if "LeaderThen \<in> set [] \<union> set (held ?st')"
      using that wfh_then [OF w] unfolding hs by (simp add: axiosInstance_def)
    show "distinct (map fst (settled ?st'))"
      using wfh_settled [OF w] by (simp add: axiosInstance_def)
    show "n < ncalls ?st' \<and> n \<notin> fst ` set (settled ?st')" if "Caller n \<in> set [] \<union> set (held ?st')" for n
    proof (cases "n = ncalls st")
      case True
      have "ncalls st \<notin> fst ` set (settled st)"
        using wfh_bound [OF w] by fastforce
      with True show ?thesis by (simp add: axiosInstance_def)
    next
      case False
      with that have "Caller n \<in> set [] \<union> set (held st)" unfolding hs by simp
      from wfh_caller [OF w this] show ?thesis by (simp add: axiosInstance_def)
    qed
    show "fst x < ncalls ?st'" if "x \<in> set (settled ?st')" for x
      using that wfh_bound [OF w, of x] by (simp add: axiosInstance_def)
  qed
  then show ?thesis by (simp add: step_def)
qed

lemma promise_of_mem: "promise_of i st = Some p \<Longrightarrow> (i, p) \<in> set (inflight st)"
  by (simp add: promise_of_def map_of_SomeD split: if_splits)

lemma wfh_answered:
  assumes p: "promise_of i st = Some p" and w: "wfh [] st"
  shows "wfh [p] (answered i st)"
proof -
  let ?f = "filter (\<lambda>x. fst x \<noteq> i) (inflight st)"
  from p have m: "(i, p) \<in> set (inflight st)" by (rule promise_of_mem)
  from wfh_distinct [OF w] have dh: "distinct (held st)" by simp
  then have d: "distinct (map snd (inflight st))" by (simp add: held_def)
  have n: "p \<notin> snd ` set ?f"
  proof
    assume "p \<in> snd ` set ?f"
    then obtain j where j: "(j, p) \<in> set (inflight st)" "j \<noteq> i" by auto
    from d have "inj_on snd (set (inflight st))" by (simp add: distinct_map)
    from inj_onD [OF this _ j(1) m] have "(j, p) = (i, p)" by simp
    with j(2) show False by simp
  qed
  have d2: "distinct (map snd ?f)" using d by (rule distinct_map_filter)
  have pin: "p \<in> set (held st)" using m by (force simp add: held_def)
  have hd: "held (answered i st) = map snd ?f @ map resolve_reject (refreshAndRetryQueue st) @ lead st"
    by (simp add: held_def lead_def answered_def)
  have sub: "set (held (answered i st)) \<subseteq> set (held st)"
    unfolding hd by (auto simp add: held_def)
  have pn: "p \<notin> set (held (answered i st))"
    using dh m n unfolding hd by (force simp add: held_def)
  have da: "distinct (held (answered i st))"
    using dh d2 unfolding hd by (auto simp add: held_def)
  show ?thesis
  proof (rule wfh_transfer [OF w])
    show "distinct ([p] @ held (answered i st))" using pn da by simp
    show "set [p] \<union> set (held (answered i st)) \<subseteq> insert LeaderThen (set [] \<union> set (held st))"
      using sub pin by auto
    show "fst x < length (requests (answered i st))" if "x \<in> set (inflight (answered i st))" for x
      using that wfh_range [OF w, of x] by (simp add: answered_def)
    show "isRefreshing (answered i st) = (leader (answered i st) \<noteq> None)"
      using wfh_flag [OF w] by (simp add: answered_def)
    show "\<exists>e q. leader (answered i st) = Some (e, q, AwaitRetry)"
      if "LeaderThen \<in> set [p] \<union> set (held (answered i st))"
    proof -
      from that sub pin have "LeaderThen \<in> set [] \<union> set (held st)" by auto
      from wfh_then [OF w this] show ?thesis by (simp add: answered_def)
    qed
    show "settled (answered i st) = settled st" by (simp add: answered_def)
    show "ncalls (answered i st) = ncalls st" by (simp add: answered_def)
  qed
qed


lemma held_resume:
  "held (resume error q s) =
     map snd (inflight s) @ map resolve_reject (refreshAndRetryQueue s) @ [q]"
  by (simp add: resume_eq held_def lead_def)

lemma wfh_resume:
  assumes w: "wfh hand s" and l: "leader s = Some (error, q, ph)"
    and t: "LeaderThen \<notin> set (held s)"
  shows "wfh [] (resume error q s)"
proof -
  from l have hs: "held s = map snd (inflight s) @ map resolve_reject (refreshAndRetryQueue s) @ [q]"
    by (simp add: held_def lead_def)
  have eq: "held (resume error q s) = held s"
    by (simp add: held_resume hs)
  show ?thesis
  proof (rule wfh_transfer [OF w])
    show "distinct ([] @ held (resume error q s))"
      using wfh_distinct [OF w] by (simp add: eq)
    show "set [] \<union> set (held (resume error q s)) \<subseteq> insert LeaderThen (set hand \<union> set (held s))"
      by (auto simp add: eq)
    show "fst x < length (requests (resume error q s))" if "x \<in> set (inflight (resume error q s))" for x
    proof -
      from that have "x \<in> set (inflight s) \<or>
          x \<in> set (zip [length (requests s)..<length (requests s) + length (refreshAndRetryQueue s)]
                 (map resolve_reject (refreshAndRetryQueue s)))"
        by (simp add: resume_eq)
      then show ?thesis
      proof
        assume "x \<in> set (inflight s)"
        from wfh_range [OF w this] show ?thesis by (simp add: resume_eq)
      next
        assume "x \<in> set (zip [length (requests s)..<length (requests s) + length (refreshAndRetryQueue s)]
                 (map resolve_reject (refreshAndRetryQueue s)))"
        moreover obtain a b where x: "x = (a, b)" by (cases x)
        ultimately have "a \<in> set [length (requests s)..<length (requests s) + length (refreshAndRetryQueue s)]"
          by (simp only: set_zip_leftD)
        then show ?thesis by (simp add: resume_eq x)
      qed
    qed
    show "isRefreshing (resume error q s) = (leader (resume error q s) \<noteq> None)"
      by (simp add: resume_eq)
    show "\<exists>e p. leader (resume error q s) = Some (e, p, AwaitRetry)"
      if "LeaderThen \<in> set [] \<union> set (held (resume error q s))"
      using that t by (simp add: eq)
    show "settled (resume error q s) = settled s" by (simp add: resume_eq)
    show "ncalls (resume error q s) = ncalls s" by (simp add: resume_eq)
  qed
qed

lemma wfh_refresh_catch: "wfh hand (refresh_catch e s) = wfh hand s"
  by (simp add: wfh_def held_def lead_def refresh_catch_def)

lemma wfh_settle:
  assumes w: "wfh [p] s"
  shows "wfh [] (settle p out s)"
proof (cases p)
  case (Caller n)
  from wfh_distinct [OF w] have pn: "p \<notin> set (held s)" and dh: "distinct (held s)" by simp_all
  from wfh_caller [OF w, of n] Caller have n: "n < ncalls s" "n \<notin> fst ` set (settled s)" by simp_all
  let ?s' = "s\<lparr>settled := settled s @ [(n, out)]\<rparr>"
  have h: "held ?s' = held s" by (simp add: held_def lead_def)
  have "wfh [] ?s'"
  proof (rule wfhI)
    show "distinct ([] @ held ?s')" using dh by (simp add: h)
    show "fst x < length (requests ?s')" if "x \<in> set (inflight ?s')" for x
      using that wfh_range [OF w, of x] by simp
    show "isRefreshing ?s' = (leader ?s' \<noteq> None)" using wfh_flag [OF w] by simp
    show "\<exists>e p. leader ?s' = Some (e, p, AwaitRetry)" if "LeaderThen \<in> set [] \<union> set (held ?s')"
      using that wfh_then [OF w] by (simp add: h)
    show "distinct (map fst (settled ?s'))" using wfh_settled [OF w] n(2) by simp
    show "m < ncalls ?s' \<and> m \<notin> fst ` set (settled ?s')" if "Caller m \<in> set [] \<union> set (held ?s')" for m
    proof -
      from that have m: "Caller m \<in> set (held s)" by (simp add: h)
      with pn Caller have "m \<noteq> n" by auto
      moreover from wfh_caller [OF w, of m] m have "m < ncalls s \<and> m \<notin> fst ` set (settled s)" by simp
      ultimately show ?thesis by simp
    qed
    show "fst x < ncalls ?s'" if "x \<in> set (settled ?s')" for x
      using that wfh_bound [OF w, of x] n(1) by auto
  qed
  with Caller show ?thesis by (simp add: settle_def)
next
  case LeaderThen
  from wfh_then [OF w] LeaderThen obtain error q where l: "leader s = Some (error, q, AwaitRetry)"
    by auto
  from wfh_distinct [OF w] LeaderThen have t: "LeaderThen \<notin> set (held s)" by simp
  show ?thesis
  proof (cases out)
    case (Fulfilled r)
    with LeaderThen l show ?thesis
      by (simp add: settle_def wfh_resume [OF w l t])
  next
    case (Rejected e)
    have w': "wfh [p] (refresh_catch e s)" using w by (simp add: wfh_refresh_catch)
    have l': "leader (refresh_catch e s) = Some (error, q, AwaitRetry)"
      using l by (simp add: refresh_catch_def)
    have t': "LeaderThen \<notin> set (held (refresh_catch e s))"
      using t by (simp add: held_def lead_def refresh_catch_def)
    from Rejected LeaderThen l show ?thesis
      by (simp add: settle_def wfh_resume [OF w' l' t'])
  qed
qed


lemma wfh_onRejected:
  assumes w: "wfh [p] s"
  shows "wfh (case fst (onRejected error p s) of None \<Rightarrow> [] | Some out \<Rightarrow> [p])
           (snd (onRejected error p s))"
proof (cases "is401 error")
  case False
  then show ?thesis using w by (simp add: onRejected_def)
next
  case True
  from wfh_distinct [OF w] have pn: "p \<notin> set (held s)" and dh: "distinct (held s)" by simp_all
  show ?thesis
  proof (cases "isRefreshing s")
    case True
    let ?s' = "s\<lparr>refreshAndRetryQueue := refreshAndRetryQueue s @
                 [\<lparr>resolve_reject = p, qconfig = config error\<rparr>]\<rparr>"
    have h: "held ?s' = map snd (inflight s) @ map resolve_reject (refreshAndRetryQueue s) @ p # lead s"
      by (simp add: held_def lead_def)
    have hs: "set (held ?s') = insert p (set (held s))"
      unfolding h by (auto simp add: held_def)
    have "wfh [] ?s'"
    proof (rule wfh_transfer [OF w])
      show "distinct ([] @ held ?s')" using dh pn unfolding h by (simp add: held_def)
      show "set [] \<union> set (held ?s') \<subseteq> insert LeaderThen (set [p] \<union> set (held s))"
        unfolding hs by auto
      show "fst x < length (requests ?s')" if "x \<in> set (inflight ?s')" for x
        using that wfh_range [OF w, of x] by simp
      show "isRefreshing ?s' = (leader ?s' \<noteq> None)" using wfh_flag [OF w] by simp
      show "\<exists>e q. leader ?s' = Some (e, q, AwaitRetry)" if "LeaderThen \<in> set [] \<union> set (held ?s')"
      proof -
        from that have "LeaderThen \<in> set [p] \<union> set (held s)" unfolding hs by simp
        from wfh_then [OF w this] show ?thesis by simp
      qed
      show "settled ?s' = settled s" by simp
      show "ncalls ?s' = ncalls s" by simp
    qed
    with True \<open>is401 error\<close> show ?thesis by (simp add: onRejected_def)
  next
    case False
    with wfh_flag [OF w] have l: "leader s = None" by blast
    have nt: "LeaderThen \<notin> set [p] \<union> set (held s)"
      using wfh_then [OF w] l by auto
    show ?thesis
    proof (cases "getRefreshToken (localStorage s)")
      case None
      let ?s' = "s\<lparr>localStorage := Map.empty, navigated := navigated s @ [''/''], isRefreshing := False\<rparr>"
      have "wfh [p] ?s' = wfh [p] (s\<lparr>isRefreshing := False\<rparr>)"
        by (simp add: wfh_def held_def lead_def)
      moreover from False have "s\<lparr>isRefreshing := False\<rparr> = s" by simp
      ultimately have "wfh [p] ?s'" using w by simp
      with None False \<open>is401 error\<close> show ?thesis by (simp add: onRejected_def)
    next
      case (Some rt)
      let ?s' = "s\<lparr>isRefreshing := True, axios_posts := axios_posts s @ [refreshRequest rt],
                leader := Some (error, p, AwaitRefresh)\<rparr>"
      have h: "held ?s' = map snd (inflight s) @ map resolve_reject (refreshAndRetryQueue s) @ [p]"
        by (simp add: held_def lead_def)
      have h0: "held s = map snd (inflight s) @ map resolve_reject (refreshAndRetryQueue s)"
        using l by (simp add: held_def lead_def)
      have hs: "set (held ?s') = insert p (set (held s))"
        unfolding h h0 by auto
      have "wfh [] ?s'"
      proof (rule wfh_transfer [OF w])
        show "distinct ([] @ held ?s')" using dh pn unfolding h h0 by simp
        show "set [] \<union> set (held ?s') \<subseteq> insert LeaderThen (set [p] \<union> set (held s))"
          unfolding hs by auto
        show "fst x < length (requests ?s')" if "x \<in> set (inflight ?s')" for x
          using that wfh_range [OF w, of x] by simp
        show "isRefreshing ?s' = (leader ?s' \<noteq> None)" by simp
        show "\<exists>e q. leader ?s' = Some (e, q, AwaitRetry)" if "LeaderThen \<in> set [] \<union> set (held ?s')"
          using that nt unfolding hs by simp
        show "settled ?s' = settled s" by simp
        show "ncalls ?s' = ncalls s" by simp
      qed
      with Some False \<open>is401 error\<close> show ?thesis by (simp add: onRejected_def)
    qed
  qed
qed

lemma wfh_Reply:
  assumes w: "wfh [] st"
  shows "wfh [] (step (Reply i r) st)"
proof (cases "promise_of i st")
  case None
  with w show ?thesis by (simp add: step_def)
next
  case (Some p)
  from wfh_settle [OF wfh_answered [OF Some w]] Some show ?thesis by (simp add: step_def)
qed

lemma wfh_Fail:
  assumes w: "wfh [] st"
  shows "wfh [] (step (Fail i ro) st)"
proof (cases "promise_of i st")
  case None
  with w show ?thesis by (simp add: step_def)
next
  case (Some p)
  let ?error = "\<lparr>config = requests st ! i, response = ro\<rparr>"
  let ?res = "onRejected ?error p (answered i st)"
  have a: "wfh (case fst ?res of None \<Rightarrow> [] | Some out \<Rightarrow> [p]) (snd ?res)"
    by (rule wfh_onRejected [OF wfh_answered [OF Some w]])
  show ?thesis
  proof (cases "fst ?res")
    case None
    with a Some show ?thesis by (simp add: step_def Let_def)
  next
    case (Some out)
    with a have "wfh [p] (snd ?res)" by simp
    from wfh_settle [OF this] Some \<open>promise_of i st = Some p\<close> show ?thesis
      by (simp add: step_def Let_def)
  qed
qed

lemma wfh_RefreshFail:
  assumes w: "wfh [] st"
  shows "wfh [] (step (RefreshFail e) st)"
proof (cases "\<exists>error p. leader st = Some (error, p, AwaitRefresh)")
  case False
  then have "step (RefreshFail e) st = st"
    by (auto simp add: step_def split: option.splits phase.splits)
  with w show ?thesis by simp
next
  case True
  then obtain error p where l: "leader st = Some (error, p, AwaitRefresh)" by blast
  have t: "LeaderThen \<notin> set (held st)" using wfh_then [OF w] l by auto
  have w': "wfh [] (refresh_catch e st)" using w by (simp add: wfh_refresh_catch)
  have l': "leader (refresh_catch e st) = Some (error, p, AwaitRefresh)"
    using l by (simp add: refresh_catch_def)
  have t': "LeaderThen \<notin> set (held (refresh_catch e st))"
    using t by (simp add: held_def lead_def refresh_catch_def)
  from wfh_resume [OF w' l' t'] l show ?thesis by (simp add: step_def)
qed

lemma wfh_RefreshReply:
  assumes w: "wfh [] st"
  shows "wfh [] (step (RefreshReply r) st)"
proof (cases "\<exists>error p. leader st = Some (error, p, AwaitRefresh)")
  case False
  then have "step (RefreshReply r) st = st"
    by (auto simp add: step_def split: option.splits phase.splits)
  with w show ?thesis by simp
next
  case True
  then obtain error p where l: "leader st = Some (error, p, AwaitRefresh)" by blast
  have t: "LeaderThen \<notin> set (held st)" using wfh_then [OF w] l by auto
  let ?s' = "(refresh_then (config error) r st)\<lparr>leader := Some (error, p, AwaitRetry)\<rparr>"
  have h: "held ?s' = map snd (inflight st) @ LeaderThen # map resolve_reject (refreshAndRetryQueue st) @ [p]"
    by (simp add: held_def lead_def refresh_then_def axiosInstance_def)
  have h0: "held st = map snd (inflight st) @ map resolve_reject (refreshAndRetryQueue st) @ [p]"
    using l by (simp add: held_def lead_def)
  have "wfh [] ?s'"
  proof (rule wfh_transfer [OF w])
    show "distinct ([] @ held ?s')" using wfh_distinct [OF w] t unfolding h h0 by simp
    show "set [] \<union> set (held ?s') \<subseteq> insert LeaderThen (set [] \<union> set (held st))"
      unfolding h h0 by auto
    show "fst x < length (requests ?s')" if "x \<in> set (inflight ?s')" for x
      using that wfh_range [OF w, of x] by (auto simp add: refresh_then_def axiosInstance_def)
    show "isRefreshing ?s' = (leader ?s' \<noteq> None)"
      using wfh_flag [OF w] l by (simp add: refresh_then_def axiosInstance_def)
    show "\<exists>e q. leader ?s' = Some (e, q, AwaitRetry)" if "LeaderThen \<in> set [] \<union> set (held ?s')"
      by simp
    show "settled ?s' = settled st" by (simp add: refresh_then_def axiosInstance_def)
    show "ncalls ?s' = ncalls st" by (simp add: refresh_then_def axiosInstance_def)
  qed
  with l show ?thesis by (simp add: step_def)
qed

lemma wfh_step: "wfh [] st \<Longrightarrow> wfh [] (step ev st)"
  by (cases ev) (simp_all add: wfh_Call wfh_Reply wfh_Fail wfh_RefreshReply wfh_RefreshFail)

lemma run_Nil: "run [] st = st"
  by (simp add: run_def)

lemma run_Cons: "run (ev # evs) st = run evs (step ev st)"
  by (simp add: run_def)

lemma run_append: "run (evs @ evs') st = run evs' (run evs st)"
  by (simp add: run_def)

lemma wfh_run: "wfh [] st \<Longrightarrow> wfh [] (run evs st)"
  by (induction evs arbitrary: st) (simp_all add: run_Nil run_Cons wfh_step)


section \<open>Callbacks are never lost or repeated by the event loop\<close>

lemma settled_onRejected: "settled (snd (onRejected error p s)) = settled s"
  by (simp add: onRejected_def Let_def split: option.splits)

lemma settled_resume: "settled (resume error p s) = settled s"
  by (simp add: resume_eq)

lemma settled_settle: "set (settled s) \<subseteq> set (settled (settle p out s))"
  by (auto simp add: settle_def settled_resume refresh_catch_def
      split: promise_ref.splits option.splits phase.splits outcome.splits)

lemma settled_step: "set (settled st) \<subseteq> set (settled (step ev st))"
proof (cases ev)
  case (Call cfg)
  then show ?thesis by (simp add: step_def axiosInstance_def)
next
  case (Reply i r)
  show ?thesis
  proof (cases "promise_of i st")
    case None
    with Reply show ?thesis by (simp add: step_def)
  next
    case (Some p)
    have "set (settled (answered i st)) \<subseteq> set (settled (settle p (Fulfilled r) (answered i st)))"
      by (rule settled_settle)
    with Reply Some show ?thesis by (simp add: step_def answered_def)
  qed
next
  case (Fail i ro)
  show ?thesis
  proof (cases "promise_of i st")
    case None
    with Fail show ?thesis by (simp add: step_def)
  next
    case (Some p)
    let ?res = "onRejected \<lparr>config = requests st ! i, response = ro\<rparr> p (answered i st)"
    have a: "settled (snd ?res) = settled st"
      by (simp add: settled_onRejected answered_def)
    show ?thesis
    proof (cases "fst ?res")
      case None
      with Fail Some a show ?thesis by (simp add: step_def Let_def \<open>promise_of i st = Some p\<close>)
    next
      case (Some out)
      have "set (settled (snd ?res)) \<subseteq> set (settled (settle p out (snd ?res)))"
        by (rule settled_settle)
      with Fail Some a show ?thesis by (simp add: step_def Let_def \<open>promise_of i st = Some p\<close>)
    qed
  qed
next
  case (RefreshReply r)
  then show ?thesis
    by (auto simp add: step_def refresh_then_def axiosInstance_def
        split: option.splits phase.splits)
next
  case (RefreshFail e)
  then show ?thesis
    by (auto simp add: step_def settled_resume refresh_catch_def
        split: option.splits phase.splits)
qed

lemma settled_run: "set (settled st) \<subseteq> set (settled (run evs st))"
proof (induction evs arbitrary: st)
  case Nil
  show ?case by (simp add: run_Nil)
next
  case (Cons ev evs)
  from settled_step [of st ev] Cons [of "step ev st"] show ?case
    by (auto simp add: run_Cons)
qed

lemma filter_key:
  "distinct (map fst xs) \<Longrightarrow> (n, v) \<in> set xs \<Longrightarrow> filter (\<lambda>x. fst x = n) xs = [(n, v)]"
proof (induction xs)
  case Nil
  then show ?case by simp
next
  case (Cons x xs)
  show ?case
  proof (cases "x = (n, v)")
    case True
    from Cons.prems(1) True have "n \<notin> fst ` set xs" by simp
    then have "filter (\<lambda>x. fst x = n) xs = []" by (auto simp add: filter_empty_conv)
    with True show ?thesis by simp
  next
    case False
    with Cons.prems have m: "(n, v) \<in> set xs" by simp
    with Cons.prems(1) have "fst x \<noteq> n" by (cases x) force
    with Cons.IH [OF _ m] Cons.prems(1) show ?thesis by simp
  qed
qed

text \<open>Once a request in flight for a caller's promise is answered, that promise has one callback invoked, for good.\<close>

lemma settled_once:
  assumes w: "wfh [] s" and p: "promise_of i s = Some (Caller n)"
    and s': "settled s' = settled s @ [(n, out)]" and w': "wfh [] s'"
  shows "filter (\<lambda>x. fst x = n) (settled (run evs s')) = [(n, out)]"
proof -
  have "(n, out) \<in> set (settled s')" by (simp add: s')
  with settled_run [of s' evs] have m: "(n, out) \<in> set (settled (run evs s'))" by blast
  from wfh_settled [OF wfh_run [OF w']] have "distinct (map fst (settled (run evs s')))" .
  from filter_key [OF this m] show ?thesis .
qed

lemma step_Reply_caller:
  "promise_of i s = Some (Caller n) \<Longrightarrow>
   step (Reply i r) s = (answered i s)\<lparr>settled := settled s @ [(n, Fulfilled r)]\<rparr>"
  by (simp add: step_def settle_def answered_def)

lemma step_Fail_caller:
  "promise_of i s = Some (Caller n) \<Longrightarrow> \<not> is401 \<lparr>config = requests s ! i, response = ro\<rparr> \<Longrightarrow>
   step (Fail i ro) s =
     (answered i s)\<lparr>settled := settled s @ [(n, Rejected \<lparr>config = requests s ! i, response = ro\<rparr>)]\<rparr>"
  by (simp add: step_def settle_def answered_def onRejected_def)

text \<open>An event on which the suspended leader finishes runs the rest of its handler.\<close>

lemma turn_end:
  assumes w: "wfh [] st" and l: "leader st = Some (error, p, ph)"
    and e: "leader (step ev st) = None"
  shows "\<exists>s. step ev st = resume error p s \<and> refreshAndRetryQueue s = refreshAndRetryQueue st
           \<and> requests s = requests st \<and> set (inflight s) \<subseteq> set (inflight st)
           \<and> settled s = settled st"
proof (cases ev)
  case (Call cfg)
  with l e show ?thesis by (simp add: step_def axiosInstance_def)
next
  case (Reply i r)
  show ?thesis
  proof (cases "promise_of i st")
    case None
    with Reply l e show ?thesis by (simp add: step_def)
  next
    case (Some q)
    show ?thesis
    proof (cases q)
      case (Caller m)
      with Reply Some l e show ?thesis by (simp add: step_def settle_def answered_def)
    next
      case LeaderThen
      show ?thesis
      proof (cases ph)
        case AwaitRefresh
        with LeaderThen Reply Some l e show ?thesis by (simp add: step_def settle_def answered_def)
      next
        case AwaitRetry
        with LeaderThen Reply Some l have "step ev st = resume error p (answered i st)"
          by (simp add: step_def settle_def answered_def)
        then show ?thesis by (intro exI [of _ "answered i st"]) (auto simp add: answered_def)
      qed
    qed
  qed
next
  case (Fail i ro)
  from wfh_flag [OF w] l have f: "isRefreshing st" by simp
  show ?thesis
  proof (cases "promise_of i st")
    case None
    with Fail l e show ?thesis by (simp add: step_def)
  next
    case (Some q)
    let ?error = "\<lparr>config = requests st ! i, response = ro\<rparr>"
    show ?thesis
    proof (cases "is401 ?error")
      case True
      with Fail Some l e f show ?thesis
        by (simp add: step_def onRejected_def answered_def)
    next
      case False
      show ?thesis
      proof (cases q)
        case (Caller m)
        with False Fail Some l e show ?thesis
          by (simp add: step_def onRejected_def settle_def answered_def)
      next
        case LeaderThen
        show ?thesis
        proof (cases ph)
          case AwaitRefresh
          with LeaderThen False Fail Some l e show ?thesis
            by (simp add: step_def onRejected_def settle_def answered_def)
        next
          case AwaitRetry
          with LeaderThen False Fail Some l
          have "step ev st = resume error p (refresh_catch ?error (answered i st))"
            by (simp add: step_def onRejected_def settle_def answered_def)
          then show ?thesis
            by (intro exI [of _ "refresh_catch ?error (answered i st)"])
              (auto simp add: answered_def refresh_catch_def)
        qed
      qed
    qed
  qed
next
  case (RefreshReply r)
  with l e show ?thesis
    by (cases ph) (simp_all add: step_def refresh_then_def axiosInstance_def)
next
  case (RefreshFail x)
  show ?thesis
  proof (cases ph)
    case AwaitRefresh
    with RefreshFail l have "step ev st = resume error p (refresh_catch x st)"
      by (simp add: step_def)
    then show ?thesis
      by (intro exI [of _ "refresh_catch x st"]) (auto simp add: refresh_catch_def)
  next
    case AwaitRetry
    with RefreshFail l e show ?thesis by (simp add: step_def)
  qed
qed

lemma map_of_replays:
  assumes r: "\<And>x. x \<in> set xs \<Longrightarrow> fst x < n" and k: "k < length ps"
  shows "map_of (xs @ zip [n..<n + length ps] ps) (n + k) = Some (ps ! k)"
proof -
  have "n + k \<notin> fst ` set xs" using r by fastforce
  then have 1: "map_of xs (n + k) = None" by (simp add: map_of_eq_None_iff)
  have "map_of (zip [n..<n + length ps] ps) ([n..<n + length ps] ! k) = Some (ps ! k)"
    by (rule map_of_zip_nth) (simp_all add: k)
  with k have 2: "map_of (zip [n..<n + length ps] ps) (n + k) = Some (ps ! k)" by simp
  from 1 2 show ?thesis by (simp add: map_add_def)
qed

lemma resume_header:
  assumes k: "k < length (refreshAndRetryQueue st)"
  shows "headers (requests (resume error p st) ! (length (requests st) + k)) ''Authorization'' =
           (case getToken (localStorage st) of
              Some token \<Rightarrow> Some (''Bearer '' @ token)
            | None \<Rightarrow> headers (qconfig (refreshAndRetryQueue st ! k)) ''Authorization'')"
  using k by (simp add: resume_eq nth_append setAxiosHeader_def split: option.splits)

lemma phase_of_leader:
  "phase_of st = Some ph \<Longrightarrow> \<exists>error p. leader st = Some (error, p, ph)"
  by (cases "leader st") (auto simp add: phase_of_def)

lemma retry_fulfilled:
  assumes w: "wfh [] st" and l: "leader st = Some (error, p, AwaitRefresh)"
  shows "run [RefreshReply r, Reply (length (requests st)) r'] st =
         resume error p (answered (length (requests st))
           ((refresh_then (config error) r st)\<lparr>leader := Some (error, p, AwaitRetry)\<rparr>))"
proof -
  let ?s1 = "(refresh_then (config error) r st)\<lparr>leader := Some (error, p, AwaitRetry)\<rparr>"
  have 1: "step (RefreshReply r) st = ?s1" using l by (simp add: step_def)
  have "length (requests st) \<notin> fst ` set (inflight st)"
    using wfh_range [OF w] by fastforce
  then have "map_of (inflight st) (length (requests st)) = None"
    by (simp add: map_of_eq_None_iff)
  then have 2: "promise_of (length (requests st)) ?s1 = Some LeaderThen"
    by (simp add: promise_of_def refresh_then_def axiosInstance_def map_add_def)
  have 3: "leader (answered (length (requests st)) ?s1) = Some (error, p, AwaitRetry)"
    by (simp add: answered_def)
  have "step (Reply (length (requests st)) r') ?s1 =
        resume error p (answered (length (requests st)) ?s1)"
    using 2 3 by (simp add: step_def settle_def)
  with 1 show ?thesis by (simp add: run_Cons run_Nil)
qed

section \<open>A leader that waits for a queued promise\<close>

lemma blocked_leader:
  "blocked p st \<Longrightarrow> \<exists>error. leader st = Some (error, p, AwaitRetry)"
  by (cases "leader st") (auto simp add: blocked_def phase_of_def lead_def)

lemma blocked_promise:
  assumes b: "blocked p st" and q: "promise_of i st = Some q"
  shows "\<exists>n. q = Caller n"
proof (cases q)
  case (Caller n)
  then show ?thesis by simp
next
  case LeaderThen
  from promise_of_mem [OF q] have "q \<in> set (map snd (inflight st))" by force
  with b LeaderThen show ?thesis by (simp add: blocked_def)
qed

lemma blocked_answered: "blocked p st \<Longrightarrow> blocked p (answered i st)"
  by (auto simp add: blocked_def phase_of_def lead_def answered_def)

lemma blocked_settled: "blocked p (st\<lparr>settled := x\<rparr>) = blocked p st"
  by (simp add: blocked_def phase_of_def lead_def)

lemma blocked_step:
  assumes b: "blocked p st"
  shows "blocked p (step ev st)"
proof (cases ev)
  case (Call cfg)
  with b show ?thesis
    by (auto simp add: step_def axiosInstance_def blocked_def phase_of_def lead_def)
next
  case (Reply i r)
  show ?thesis
  proof (cases "promise_of i st")
    case None
    with Reply b show ?thesis by (simp add: step_def)
  next
    case (Some q)
    from blocked_promise [OF b Some] obtain n where "q = Caller n" ..
    with Reply Some blocked_answered [OF b, of i] show ?thesis
      by (simp add: step_def settle_def blocked_settled)
  qed
next
  case (Fail i ro)
  show ?thesis
  proof (cases "promise_of i st")
    case None
    with Fail b show ?thesis by (simp add: step_def)
  next
    case (Some q)
    from blocked_promise [OF b Some] obtain n where n: "q = Caller n" ..
    let ?error = "\<lparr>config = requests st ! i, response = ro\<rparr>"
    have a: "blocked p (answered i st)" by (rule blocked_answered [OF b])
    then have f: "isRefreshing (answered i st)" by (simp add: blocked_def)
    show ?thesis
    proof (cases "is401 ?error")
      case True
      have "blocked p ((answered i st)\<lparr>refreshAndRetryQueue := refreshAndRetryQueue (answered i st) @
                 [\<lparr>resolve_reject = q, qconfig = config ?error\<rparr>]\<rparr>)"
        using a by (simp add: blocked_def phase_of_def lead_def)
      with True f Fail Some show ?thesis
        by (simp add: step_def onRejected_follower)
    next
      case False
      with Fail Some n a show ?thesis
        by (simp add: step_def onRejected_def settle_def blocked_settled)
    qed
  qed
next
  case (RefreshReply r)
  from blocked_leader [OF b] obtain error where "leader st = Some (error, p, AwaitRetry)" ..
  with RefreshReply b show ?thesis by (simp add: step_def)
next
  case (RefreshFail e)
  from blocked_leader [OF b] obtain error where "leader st = Some (error, p, AwaitRetry)" ..
  with RefreshFail b show ?thesis by (simp add: step_def)
qed

lemma blocked_run: "blocked p st \<Longrightarrow> blocked p (run evs st)"
  by (induction evs arbitrary: st) (simp_all add: run_Nil run_Cons blocked_step)

section \<open>Failures that are not authentication failures\<close>

text \<open>
  C7. A failure that carries a response whose status is not 401 is rejected with the same
  error, and the handler changes nothing: not \<open>isRefreshing\<close>, not the queue, not the store
  (the state after it is the state before it).
\<close>

theorem non401_passthrough:
  assumes "response error = Some r" and "status r \<noteq> 401"
  shows "onRejected error p st = (Some (Rejected error), st)"
  using assms by (simp add: onRejected_def is401_def)

theorem non401_passthrough_witness:
  "response (failed ''/api/data'' 500) = Some (answer 500) \<and> status (answer 500) \<noteq> 401 \<and>
   onRejected (failed ''/api/data'' 500) (Caller 0) (init signed_in) =
     (Some (Rejected (failed ''/api/data'' 500)), init signed_in)"
proof -
  have 1: "response (failed ''/api/data'' 500) = Some (answer 500)" by (simp add: failed_def)
  have 2: "status (answer 500) \<noteq> 401" by (simp add: answer_def)
  from 1 2 non401_passthrough [OF 1 2] show ?thesis by simp
qed

text \<open>
  C10. A failure that carries no response at all is rejected with the same error and the
  handler changes nothing, whatever caused the failure.
\<close>

theorem no_response_passthrough:
  assumes "response error = None"
  shows "onRejected error p st = (Some (Rejected error), st)"
  using assms by (simp add: onRejected_def is401_def)

theorem no_response_passthrough_witness:
  "onRejected \<lparr>config = getData ''/api/data'', response = None\<rparr> (Caller 0) (init signed_in) =
     (Some (Rejected \<lparr>config = getData ''/api/data'', response = None\<rparr>), init signed_in)"
  by (rule no_response_passthrough) simp

section \<open>No refresh token\<close>

text \<open>
  C8. When a 401 failure arrives while no refresh is running and the store holds no refresh
  token, the store is cleared, \<^verbatim>\<open>window.location.href\<close> is set to \<^verbatim>\<open>"/"\<close>, the handler's promise is
  rejected with the original error, and nothing is sent: no refresh POST and no other request.
  The flag is false afterwards.
\<close>

theorem missing_refresh_token:
  assumes "is401 error" and "\<not> isRefreshing st" and "getRefreshToken (localStorage st) = None"
  shows "fst (onRejected error p st) = Some (Rejected error)
       \<and> localStorage (snd (onRejected error p st)) = Map.empty
       \<and> navigated (snd (onRejected error p st)) = navigated st @ [''/'']
       \<and> axios_posts (snd (onRejected error p st)) = axios_posts st
       \<and> requests (snd (onRejected error p st)) = requests st
       \<and> \<not> isRefreshing (snd (onRejected error p st))"
  using assms by (simp add: onRejected_no_token)

theorem missing_refresh_token_witness:
  "fst (onRejected (failed ''/api/data'' 401) (Caller 0) (init [''token'' \<mapsto> ''T1''])) =
     Some (Rejected (failed ''/api/data'' 401))
   \<and> localStorage (snd (onRejected (failed ''/api/data'' 401) (Caller 0) (init [''token'' \<mapsto> ''T1'']))) ''token'' = None
   \<and> navigated (snd (onRejected (failed ''/api/data'' 401) (Caller 0) (init [''token'' \<mapsto> ''T1'']))) = [''/'']
   \<and> length (axios_posts (snd (onRejected (failed ''/api/data'' 401) (Caller 0) (init [''token'' \<mapsto> ''T1''])))) = 0"
proof -
  have 1: "is401 (failed ''/api/data'' 401)" by (simp add: is401_def failed_def answer_def)
  have 2: "\<not> isRefreshing (init [''token'' \<mapsto> ''T1''])" by (simp add: init_def)
  have 3: "getRefreshToken (localStorage (init [''token'' \<mapsto> ''T1''])) = None"
    by (simp add: init_def getRefreshToken_def)
  from missing_refresh_token [OF 1 2 3, of "Caller 0"] show ?thesis by (simp add: init_def)
qed

section \<open>One refresh for many failures\<close>

text \<open>
  C1, as the code has it. Let one or more 401 failures arrive one after the other. If a refresh
  is running, every one of them is appended to the queue, in order, and no refresh POST is
  sent. If no refresh is running and the store holds a refresh token, exactly one refresh POST
  is sent, by the first failure, which becomes the suspended leader; the others are appended to
  the queue in order.
\<close>

theorem single_flight:
  assumes "list_all (\<lambda>f. is401 (fst f)) (f # fs)"
  shows "(isRefreshing st \<longrightarrow>
            axios_posts (arrive (f # fs) st) = axios_posts st
          \<and> refreshAndRetryQueue (arrive (f # fs) st) = refreshAndRetryQueue st @
               map (\<lambda>g. \<lparr>resolve_reject = snd g, qconfig = config (fst g)\<rparr>) (f # fs))
       \<and> (\<not> isRefreshing st \<and> getRefreshToken (localStorage st) = Some rt \<longrightarrow>
            axios_posts (arrive (f # fs) st) = axios_posts st @ [refreshRequest rt]
          \<and> leader (arrive (f # fs) st) = Some (fst f, snd f, AwaitRefresh)
          \<and> refreshAndRetryQueue (arrive (f # fs) st) = refreshAndRetryQueue st @
               map (\<lambda>g. \<lparr>resolve_reject = snd g, qconfig = config (fst g)\<rparr>) fs)"
proof (intro conjI impI)
  assume r: "isRefreshing st"
  from arrive_followers [OF r assms]
  show "axios_posts (arrive (f # fs) st) = axios_posts st" by simp
  from arrive_followers [OF r assms]
  show "refreshAndRetryQueue (arrive (f # fs) st) = refreshAndRetryQueue st @
               map (\<lambda>g. \<lparr>resolve_reject = snd g, qconfig = config (fst g)\<rparr>) (f # fs)" by simp
next
  assume a: "\<not> isRefreshing st \<and> getRefreshToken (localStorage st) = Some rt"
  from assms have f: "is401 (fst f)" and fs: "list_all (\<lambda>f. is401 (fst f)) fs" by simp_all
  let ?st1 = "st\<lparr>isRefreshing := True, axios_posts := axios_posts st @ [refreshRequest rt],
                leader := Some (fst f, snd f, AwaitRefresh)\<rparr>"
  have 1: "arrive (f # fs) st = arrive fs ?st1"
    using a f by (simp add: arrive_Cons onRejected_leader)
  have 2: "arrive fs ?st1 = ?st1\<lparr>refreshAndRetryQueue := refreshAndRetryQueue ?st1 @
          map (\<lambda>f. \<lparr>resolve_reject = snd f, qconfig = config (fst f)\<rparr>) fs\<rparr>"
    by (rule arrive_followers) (simp_all add: fs)
  show "axios_posts (arrive (f # fs) st) = axios_posts st @ [refreshRequest rt]"
    by (simp add: 1 2)
  show "leader (arrive (f # fs) st) = Some (fst f, snd f, AwaitRefresh)"
    by (simp add: 1 2)
  show "refreshAndRetryQueue (arrive (f # fs) st) = refreshAndRetryQueue st @
               map (\<lambda>g. \<lparr>resolve_reject = snd g, qconfig = config (fst g)\<rparr>) fs"
    by (simp add: 1 2)
qed

theorem single_flight_witness:
  "length (axios_posts (arrive [(failed ''/a'' 401, Caller 0), (failed ''/b'' 401, Caller 1),
      (failed ''/c'' 401, Caller 2)] (init signed_in))) = 1
   \<and> map resolve_reject (refreshAndRetryQueue (arrive [(failed ''/a'' 401, Caller 0),
      (failed ''/b'' 401, Caller 1), (failed ''/c'' 401, Caller 2)] (init signed_in))) =
      [Caller 1, Caller 2]"
proof -
  have 1: "list_all (\<lambda>f. is401 (fst f)) [(failed ''/a'' 401, Caller 0), (failed ''/b'' 401, Caller 1),
      (failed ''/c'' 401, Caller 2)]"
    by (simp add: is401_def failed_def answer_def)
  have 2: "\<not> isRefreshing (init signed_in) \<and> getRefreshToken (localStorage (init signed_in)) = Some ''R1''"
    by (simp add: init_def signed_in_def getRefreshToken_def)
  from single_flight [OF 1, of "init signed_in" "''R1''"] 2 show ?thesis
    by (simp add: init_def)
qed

text \<open>
  C1 as it is written does not hold when the store holds no refresh token: two concurrent 401
  failures arrive while no refresh is running, no refresh POST is sent at all and nothing is
  queued (each failure is rejected by the branch of lines 267-271).
\<close>

theorem no_refresh_token_no_refresh_call:
  "is401 (failed ''/a'' 401) \<and> is401 (failed ''/b'' 401) \<and> \<not> isRefreshing (init Map.empty)
   \<and> length (axios_posts (arrive [(failed ''/a'' 401, Caller 0), (failed ''/b'' 401, Caller 1)]
        (init Map.empty))) = 0
   \<and> length (refreshAndRetryQueue (arrive [(failed ''/a'' 401, Caller 0), (failed ''/b'' 401, Caller 1)]
        (init Map.empty))) = 0"
  by (simp add: arrive_def onRejected_def is401_def failed_def answer_def init_def getRefreshToken_def)

section \<open>The drain keeps the order of arrival\<close>

text \<open>
  C5. Whatever the queue holds, followers that arrive in some order while a refresh is running
  are replayed in that order when the leader's handler goes on after its \<^verbatim>\<open>await\<close>: the requests
  sent by the drain are the queued ones followed by the new followers, in order of arrival, each
  with the header set from the store, and each bound to its own promise.
\<close>

theorem fifo_drain:
  assumes "isRefreshing st" and "list_all (\<lambda>f. is401 (fst f)) fs"
  shows "requests (resume error p (arrive fs st)) =
           requests st @
           map (\<lambda>item. setAxiosHeader (localStorage st) (qconfig item))
             (refreshAndRetryQueue st @
              map (\<lambda>f. \<lparr>resolve_reject = snd f, qconfig = config (fst f)\<rparr>) fs)
       \<and> map snd (inflight (resume error p (arrive fs st))) =
           map snd (inflight st) @
           map resolve_reject (refreshAndRetryQueue st) @ map snd fs"
  by (simp add: arrive_followers [OF assms] resume_eq comp_def)

theorem fifo_drain_witness:
  "map url (requests (resume (failed ''/leader'' 401) (Caller 0)
      (arrive [(failed ''/a'' 401, Caller 1), (failed ''/b'' 401, Caller 2), (failed ''/c'' 401, Caller 3)]
         ((init signed_in)\<lparr>isRefreshing := True\<rparr>)))) = [''/a'', ''/b'', ''/c'']
   \<and> map snd (inflight (resume (failed ''/leader'' 401) (Caller 0)
      (arrive [(failed ''/a'' 401, Caller 1), (failed ''/b'' 401, Caller 2), (failed ''/c'' 401, Caller 3)]
         ((init signed_in)\<lparr>isRefreshing := True\<rparr>)))) = [Caller 1, Caller 2, Caller 3]"
proof -
  have 1: "isRefreshing ((init signed_in)\<lparr>isRefreshing := True\<rparr>)" by simp
  have 2: "list_all (\<lambda>f. is401 (fst f))
      [(failed ''/a'' 401, Caller 1), (failed ''/b'' 401, Caller 2), (failed ''/c'' 401, Caller 3)]"
    by (simp add: is401_def failed_def answer_def)
  from fifo_drain [OF 1 2, of "failed ''/leader'' 401" "Caller 0"] show ?thesis
    by (simp add: init_def failed_def getData_def setAxiosHeader_def getToken_def signed_in_def)
qed

section \<open>The flag, the exits of the leader, and the leader that never exits\<close>

text \<open>
  What the \<^verbatim>\<open>finally\<close> of line 276 achieves. In every run of the program the flag \<open>isRefreshing\<close>
  is set exactly while a leader's handler is suspended at its \<^verbatim>\<open>await\<close>. It is false after the
  handler goes on from the \<^verbatim>\<open>await\<close>, after the \<^verbatim>\<open>catch\<close> block, and after the branch for a missing
  refresh token; with the flag false, the next 401 failure is not queued. This says nothing
  about a handler whose \<^verbatim>\<open>await\<close> never returns.
\<close>

lemma flag_released_on_every_exit:
  "(isRefreshing (run evs (init ls)) \<longleftrightarrow> leader (run evs (init ls)) \<noteq> None)
   \<and> \<not> isRefreshing (resume error p st)
   \<and> \<not> isRefreshing (catch_block error p st)
   \<and> (is401 error \<and> \<not> isRefreshing st \<and> getRefreshToken (localStorage st) = None \<longrightarrow>
        \<not> isRefreshing (snd (onRejected error p st)))
   \<and> (is401 error \<and> \<not> isRefreshing st \<longrightarrow>
        refreshAndRetryQueue (snd (onRejected error p st)) = refreshAndRetryQueue st
      \<and> (fst (onRejected error p st) = Some (Rejected error)
         \<or> leader (snd (onRejected error p st)) = Some (error, p, AwaitRefresh)))"
proof (intro conjI impI)
  show "isRefreshing (run evs (init ls)) \<longleftrightarrow> leader (run evs (init ls)) \<noteq> None"
    by (rule wfh_flag [OF wfh_run [OF wfh_init]])
  show "\<not> isRefreshing (resume error p st)" by (simp add: resume_eq)
  show "\<not> isRefreshing (catch_block error p st)" by (simp add: catch_block_def finally_push_def)
next
  assume "is401 error \<and> \<not> isRefreshing st \<and> getRefreshToken (localStorage st) = None"
  then show "\<not> isRefreshing (snd (onRejected error p st))" by (simp add: onRejected_no_token)
next
  assume a: "is401 error \<and> \<not> isRefreshing st"
  show "refreshAndRetryQueue (snd (onRejected error p st)) = refreshAndRetryQueue st"
    using a by (cases "getRefreshToken (localStorage st)")
      (simp_all add: onRejected_no_token onRejected_leader)
  show "fst (onRejected error p st) = Some (Rejected error)
         \<or> leader (snd (onRejected error p st)) = Some (error, p, AwaitRefresh)"
    using a by (cases "getRefreshToken (localStorage st)")
      (simp_all add: onRejected_no_token onRejected_leader)
qed

text \<open>
  An instance: a leader whose refresh POST is refused. Afterwards the flag is false and no
  leader is suspended; the store was cleared, so the next 401 failure is rejected without being
  queued (the queue still holds only the former leader).
\<close>

lemma flag_released_on_every_exit_instance:
  "\<not> isRefreshing (run (lone_leader @ [RefreshFail refresh_refused]) (init signed_in))
   \<and> lead (run (lone_leader @ [RefreshFail refresh_refused]) (init signed_in)) = []
   \<and> is401 (failed ''/api/data'' 401)
   \<and> getRefreshToken (localStorage (run (lone_leader @ [RefreshFail refresh_refused]) (init signed_in))) = None
   \<and> fst (onRejected (failed ''/api/data'' 401) (Caller 1)
        (run (lone_leader @ [RefreshFail refresh_refused]) (init signed_in))) =
      Some (Rejected (failed ''/api/data'' 401))
   \<and> map resolve_reject (refreshAndRetryQueue (snd (onRejected (failed ''/api/data'' 401) (Caller 1)
        (run (lone_leader @ [RefreshFail refresh_refused]) (init signed_in))))) = [Caller 0]"
proof -
  let ?s = "run (lone_leader @ [RefreshFail refresh_refused]) (init signed_in)"
  have 1: "lead ?s = []" by code_simp
  then have l: "leader ?s = None" by (simp add: lead_def split: option.splits)
  have 2: "is401 (failed ''/api/data'' 401)" by code_simp
  have 3: "getRefreshToken (localStorage ?s) = None" by code_simp
  have 4: "map resolve_reject (refreshAndRetryQueue ?s) = [Caller 0]" by code_simp
  note t = flag_released_on_every_exit [of "lone_leader @ [RefreshFail refresh_refused]" signed_in
      "failed ''/api/data'' 401" "Caller 1" ?s]
  from t l have 5: "\<not> isRefreshing ?s" by simp
  from t 2 5 3 have 6: "refreshAndRetryQueue (snd (onRejected (failed ''/api/data'' 401) (Caller 1) ?s)) =
      refreshAndRetryQueue ?s" by blast
  have 7: "fst (onRejected (failed ''/api/data'' 401) (Caller 1) ?s) = Some (Rejected (failed ''/api/data'' 401))"
    using 2 5 3 by (simp add: onRejected_no_token)
  from 1 2 3 4 5 6 7 show ?thesis by simp
qed

text \<open>
  From any state a run can reach in which a leader waits for the refresh: once the refresh is
  answered and the request retried by the leader fails with 401, the leader is blocked.
\<close>

lemma retry_401_blocks:
  assumes w: "wfh [] st" and l: "leader st = Some (error, p, AwaitRefresh)"
    and a: "status r' = 401"
  shows "blocked p (run [RefreshReply r, Fail (length (requests st)) (Some r')] st)"
proof -
  let ?n = "length (requests st)"
  let ?s1 = "(refresh_then (config error) r st)\<lparr>leader := Some (error, p, AwaitRetry)\<rparr>"
  let ?e = "\<lparr>config = requests (refresh_then (config error) r st) ! ?n, response = Some r'\<rparr>"
  have 1: "step (RefreshReply r) st = ?s1" using l by (simp add: step_def)
  have "?n \<notin> fst ` set (inflight st)"
    using wfh_range [OF w] by fastforce
  then have "map_of (inflight st) ?n = None"
    by (simp add: map_of_eq_None_iff)
  then have 2: "promise_of ?n ?s1 = Some LeaderThen"
    by (simp add: promise_of_def refresh_then_def axiosInstance_def map_add_def)
  have 3: "is401 ?e" using a by (simp add: is401_def)
  have 4: "isRefreshing (answered ?n ?s1)"
    using wfh_flag [OF w] l by (simp add: answered_def refresh_then_def axiosInstance_def)
  have 5: "step (Fail ?n (Some r')) ?s1 =
      (answered ?n ?s1)\<lparr>refreshAndRetryQueue := refreshAndRetryQueue (answered ?n ?s1) @
         [\<lparr>resolve_reject = LeaderThen, qconfig = config ?e\<rparr>]\<rparr>"
    using 2 by (simp add: step_def Let_def onRejected_follower [OF 3 4])
  have "LeaderThen \<notin> set (held st)" using wfh_then [OF w] l by auto
  then have 6: "LeaderThen \<notin> snd ` set (inflight st)" by (simp add: held_def)
  have "blocked p ((answered ?n ?s1)\<lparr>refreshAndRetryQueue := refreshAndRetryQueue (answered ?n ?s1) @
         [\<lparr>resolve_reject = LeaderThen, qconfig = config ?e\<rparr>]\<rparr>)"
    using 4 6
    by (auto simp add: blocked_def phase_of_def lead_def answered_def refresh_then_def
        axiosInstance_def)
  with 1 5 show ?thesis by (simp add: run_Cons run_Nil)
qed

lemma retry_401_flag_stuck:
  assumes "phase_of (run evs (init ls)) = Some AwaitRefresh" and "status r' = 401"
  shows "isRefreshing (run evs'
           (run [RefreshReply r, Fail (length (requests (run evs (init ls)))) (Some r')]
              (run evs (init ls))))"
proof -
  from phase_of_leader [OF assms(1)] obtain error p
    where l: "leader (run evs (init ls)) = Some (error, p, AwaitRefresh)" by blast
  have w: "wfh [] (run evs (init ls))" by (intro wfh_run wfh_init)
  from blocked_run [OF retry_401_blocks [OF w l assms(2)]] show ?thesis
    by (simp add: blocked_def)
qed

text \<open>
  C6, at a failing input. One call fails with 401 while the store holds both tokens; the
  refresh POST is answered with new tokens (the refresh succeeded: T2 is in the store); the
  leader's request is sent again and is answered with 401 again. The handler of that failure
  runs while the flag is still set, so it pushes the retried request on the queue (line 280);
  the leader waits at line 238 for the promise of that queue entry, which only a leader's drain
  could settle, and never reaches the \<^verbatim>\<open>finally\<close> of line 276. Nothing is in flight. In every
  continuation of this run \<open>isRefreshing\<close> stays true, the leader stays suspended and its caller
  is never settled; every later 401 failure is pushed on the queue and sends no refresh POST.
\<close>

theorem leader_blocked_by_its_own_retry:
  "localStorage (run (lone_leader @
      [RefreshReply (refreshed ''T2'' ''R2''), Fail 1 (Some (answer 401))]) (init signed_in))
      ''token'' = Some ''T2''
   \<and> map resolve_reject (refreshAndRetryQueue (run (lone_leader @
      [RefreshReply (refreshed ''T2'' ''R2''), Fail 1 (Some (answer 401))]) (init signed_in))) =
      [LeaderThen]
   \<and> inflight (run (lone_leader @
      [RefreshReply (refreshed ''T2'' ''R2''), Fail 1 (Some (answer 401))]) (init signed_in)) = []
   \<and> isRefreshing (run evs (run (lone_leader @
      [RefreshReply (refreshed ''T2'' ''R2''), Fail 1 (Some (answer 401))]) (init signed_in)))
   \<and> lead (run evs (run (lone_leader @
      [RefreshReply (refreshed ''T2'' ''R2''), Fail 1 (Some (answer 401))]) (init signed_in))) = [Caller 0]
   \<and> 0 \<notin> fst ` set (settled (run evs (run (lone_leader @
      [RefreshReply (refreshed ''T2'' ''R2''), Fail 1 (Some (answer 401))]) (init signed_in))))
   \<and> fst (onRejected (failed ''/b'' 401) q (run evs (run (lone_leader @
      [RefreshReply (refreshed ''T2'' ''R2''), Fail 1 (Some (answer 401))]) (init signed_in)))) = None
   \<and> map resolve_reject (refreshAndRetryQueue (snd (onRejected (failed ''/b'' 401) q
        (run evs (run (lone_leader @
      [RefreshReply (refreshed ''T2'' ''R2''), Fail 1 (Some (answer 401))]) (init signed_in)))))) =
      map resolve_reject (refreshAndRetryQueue (run evs (run (lone_leader @
      [RefreshReply (refreshed ''T2'' ''R2''), Fail 1 (Some (answer 401))]) (init signed_in)))) @ [q]
   \<and> axios_posts (snd (onRejected (failed ''/b'' 401) q (run evs (run (lone_leader @
      [RefreshReply (refreshed ''T2'' ''R2''), Fail 1 (Some (answer 401))]) (init signed_in))))) =
      axios_posts (run evs (run (lone_leader @
      [RefreshReply (refreshed ''T2'' ''R2''), Fail 1 (Some (answer 401))]) (init signed_in)))"
proof -
  let ?S = "run (lone_leader @ [RefreshReply (refreshed ''T2'' ''R2''), Fail 1 (Some (answer 401))])
      (init signed_in)"
  have 1: "localStorage ?S ''token'' = Some ''T2''" by code_simp
  have 2: "map resolve_reject (refreshAndRetryQueue ?S) = [LeaderThen]" by code_simp
  have 3: "inflight ?S = []" by code_simp
  have "blocked (Caller 0) ?S" by code_simp
  then have b: "blocked (Caller 0) (run evs ?S)" by (rule blocked_run)
  then have f: "isRefreshing (run evs ?S)" by (simp add: blocked_def)
  have w: "wfh [] (run evs ?S)" by (intro wfh_run wfh_init)
  from b have l: "lead (run evs ?S) = [Caller 0]" by (simp add: blocked_def)
  then have "Caller 0 \<in> set [] \<union> set (held (run evs ?S))" by (simp add: held_def)
  from wfh_caller [OF w this] have s: "0 \<notin> fst ` set (settled (run evs ?S))" by simp
  have a: "is401 (failed ''/b'' 401)" by code_simp
  note o = onRejected_follower [OF a f, of q]
  have 7: "fst (onRejected (failed ''/b'' 401) q (run evs ?S)) = None"
    unfolding o by simp
  have 8: "map resolve_reject (refreshAndRetryQueue (snd (onRejected (failed ''/b'' 401) q
      (run evs ?S)))) = map resolve_reject (refreshAndRetryQueue (run evs ?S)) @ [q]"
    unfolding o by simp
  have 9: "axios_posts (snd (onRejected (failed ''/b'' 401) q (run evs ?S))) =
      axios_posts (run evs ?S)"
    unfolding o by simp
  from 1 2 3 f l s 7 8 9 show ?thesis by (intro conjI)
qed

section \<open>What becomes of the leader's own promise\<close>

text \<open>
  C3, at a failing input. One call fails with 401 while the store holds both tokens; the
  refresh POST is answered with new tokens; the leader's request is sent again and answered
  with status 200. The new tokens are in the store and the request was sent a second time, but
  no callback was invoked on the caller's promise: the answer of the retried request is dropped
  at the \<^verbatim>\<open>await\<close>, and the handler goes on to line 280 and pushes its own callbacks on the queue,
  which was drained just before. Nothing is in flight and no refresh is running, so the promise
  stays pending.
\<close>

theorem leader_pending_after_refresh_success:
  "localStorage (run (lone_leader @ [RefreshReply (refreshed ''T2'' ''R2''), Reply 1 (answer 200)])
       (init signed_in)) ''token'' = Some ''T2''
   \<and> localStorage (run (lone_leader @ [RefreshReply (refreshed ''T2'' ''R2''), Reply 1 (answer 200)])
       (init signed_in)) ''refreshToken'' = Some ''R2''
   \<and> map url (requests (run (lone_leader @ [RefreshReply (refreshed ''T2'' ''R2''), Reply 1 (answer 200)])
       (init signed_in))) = [''/api/data'', ''/api/data'']
   \<and> map fst (settled (run (lone_leader @ [RefreshReply (refreshed ''T2'' ''R2''), Reply 1 (answer 200)])
       (init signed_in))) = []
   \<and> map resolve_reject (refreshAndRetryQueue (run (lone_leader @
       [RefreshReply (refreshed ''T2'' ''R2''), Reply 1 (answer 200)]) (init signed_in))) = [Caller 0]
   \<and> inflight (run (lone_leader @ [RefreshReply (refreshed ''T2'' ''R2''), Reply 1 (answer 200)])
       (init signed_in)) = []
   \<and> \<not> isRefreshing (run (lone_leader @ [RefreshReply (refreshed ''T2'' ''R2''), Reply 1 (answer 200)])
       (init signed_in))"
  by code_simp

text \<open>
  C4, at a failing input. One call fails with 401 while the store holds both tokens, and the
  refresh POST is refused. The store is cleared and the request is not sent again, but the
  caller's promise is not rejected: the \<^verbatim>\<open>.catch\<close> of lines 256-259 swallows the refresh error, and
  the handler goes on to line 280 and pushes its own callbacks on the queue. Nothing is in
  flight and no refresh is running, so the promise stays pending.
\<close>

theorem leader_pending_after_refresh_failure:
  "localStorage (run (lone_leader @ [RefreshFail refresh_refused]) (init signed_in)) ''token'' = None
   \<and> localStorage (run (lone_leader @ [RefreshFail refresh_refused]) (init signed_in)) ''refreshToken'' = None
   \<and> map url (requests (run (lone_leader @ [RefreshFail refresh_refused]) (init signed_in))) = [''/api/data'']
   \<and> map fst (settled (run (lone_leader @ [RefreshFail refresh_refused]) (init signed_in))) = []
   \<and> map resolve_reject (refreshAndRetryQueue (run (lone_leader @ [RefreshFail refresh_refused])
        (init signed_in))) = [Caller 0]
   \<and> inflight (run (lone_leader @ [RefreshFail refresh_refused]) (init signed_in)) = []
   \<and> \<not> isRefreshing (run (lone_leader @ [RefreshFail refresh_refused]) (init signed_in))"
  by code_simp

section \<open>Followers are replayed, and settled when the replay is answered\<close>

text \<open>
  C2 as it is written does not hold of the code: a follower is queued while the refresh runs; the refresh
  succeeds and the leader's retried request is answered, which ends the leader's run (the flag
  is false, no leader is suspended). At that moment neither callback of the follower has been
  invoked: its replay (request 3) has only been sent. And the follower can stay pending: when
  its replay fails with 401 it becomes the next leader, refreshes, has its retried request
  answered, and ends in the queue with nothing in flight and no refresh running.
\<close>

theorem follower_unsettled_when_leader_is_done:
  "isRefreshing (run leader_and_follower (init signed_in))
   \<and> map resolve_reject (refreshAndRetryQueue (run leader_and_follower (init signed_in))) = [Caller 1]
   \<and> \<not> isRefreshing (run (leader_and_follower @
         [RefreshReply (refreshed ''T2'' ''R2''), Reply 2 (answer 200)]) (init signed_in))
   \<and> lead (run (leader_and_follower @
         [RefreshReply (refreshed ''T2'' ''R2''), Reply 2 (answer 200)]) (init signed_in)) = []
   \<and> map fst (settled (run (leader_and_follower @
         [RefreshReply (refreshed ''T2'' ''R2''), Reply 2 (answer 200)]) (init signed_in))) = []
   \<and> inflight (run (leader_and_follower @
         [RefreshReply (refreshed ''T2'' ''R2''), Reply 2 (answer 200)]) (init signed_in)) = [(3, Caller 1)]
   \<and> map fst (settled (run (leader_and_follower @
         [RefreshReply (refreshed ''T2'' ''R2''), Reply 2 (answer 200), Fail 3 (Some (answer 401)),
          RefreshReply (refreshed ''T3'' ''R3''), Reply 4 (answer 200), Reply 5 (answer 200)])
         (init signed_in))) = [0]
   \<and> map resolve_reject (refreshAndRetryQueue (run (leader_and_follower @
         [RefreshReply (refreshed ''T2'' ''R2''), Reply 2 (answer 200), Fail 3 (Some (answer 401)),
          RefreshReply (refreshed ''T3'' ''R3''), Reply 4 (answer 200), Reply 5 (answer 200)])
         (init signed_in))) = [Caller 1]
   \<and> inflight (run (leader_and_follower @
         [RefreshReply (refreshed ''T2'' ''R2''), Reply 2 (answer 200), Fail 3 (Some (answer 401)),
          RefreshReply (refreshed ''T3'' ''R3''), Reply 4 (answer 200), Reply 5 (answer 200)])
         (init signed_in)) = []
   \<and> \<not> isRefreshing (run (leader_and_follower @
         [RefreshReply (refreshed ''T2'' ''R2''), Reply 2 (answer 200), Fail 3 (Some (answer 401)),
          RefreshReply (refreshed ''T3'' ''R3''), Reply 4 (answer 200), Reply 5 (answer 200)])
         (init signed_in))"
  by code_simp

text \<open>
  C2, as the code has it. Take any run of the program that has reached a state \<open>st\<close> in which a
  refresh is running, and an event \<open>ev\<close> on which the leader's handler finishes (the flag is
  false after it). Then for the \<open>k\<close>-th entry of the queue, with a caller's promise \<open>n\<close>: its
  replay is in flight as request number \<open>length (requests st) + k\<close>, bound to that promise; the
  promise is no longer in the queue; and no callback has been invoked on it yet. Whenever
  later a request in flight for that promise is answered with a response, or fails with an
  error that is not a 401, the promise has exactly one callback invoked, with that outcome
  (\<^verbatim>\<open>resolve\<close> for the response, \<^verbatim>\<open>reject\<close> for the error), and this stays so in every
  continuation of the run.
\<close>

theorem follower_replayed_and_settled_once:
  assumes st: "st = run evs (init ls)"
    and f: "isRefreshing st" and e: "\<not> isRefreshing (step ev st)"
    and k: "k < length (refreshAndRetryQueue st)"
    and n: "resolve_reject (refreshAndRetryQueue st ! k) = Caller n"
    and s: "s = run evs1 (step ev st)"
  shows "promise_of (length (requests st) + k) (step ev st) = Some (Caller n)
       \<and> Caller n \<notin> resolve_reject ` set (refreshAndRetryQueue (step ev st))
       \<and> n \<notin> fst ` set (settled (step ev st))
       \<and> (promise_of i s = Some (Caller n) \<longrightarrow>
            filter (\<lambda>x. fst x = n) (settled (run evs2 (step (Reply i r) s))) = [(n, Fulfilled r)])
       \<and> (promise_of i s = Some (Caller n) \<and> \<not> is401 \<lparr>config = requests s ! i, response = ro\<rparr> \<longrightarrow>
            filter (\<lambda>x. fst x = n) (settled (run evs2 (step (Fail i ro) s))) =
              [(n, Rejected \<lparr>config = requests s ! i, response = ro\<rparr>)])"
proof -
  have w: "wfh [] st" unfolding st by (rule wfh_run [OF wfh_init])
  have w1: "wfh [] (step ev st)" by (rule wfh_step [OF w])
  have ws: "wfh [] s" unfolding s by (rule wfh_run [OF w1])
  from wfh_flag [OF w] f obtain error p ph where l: "leader st = Some (error, p, ph)"
    by (cases "leader st") auto
  from wfh_flag [OF w1] e have l1: "leader (step ev st) = None" by blast
  from turn_end [OF w l l1] obtain s0 where s0: "step ev st = resume error p s0"
      "refreshAndRetryQueue s0 = refreshAndRetryQueue st" "requests s0 = requests st"
      "set (inflight s0) \<subseteq> set (inflight st)" "settled s0 = settled st"
    by blast
  have r: "fst x < length (requests st)" if "x \<in> set (inflight s0)" for x
    using that s0(4) wfh_range [OF w, of x] by blast
  from k have k': "k < length (map resolve_reject (refreshAndRetryQueue st))" by simp
  have m: "map_of (inflight s0 @ zip [length (requests st)..<length (requests st) +
              length (map resolve_reject (refreshAndRetryQueue st))]
              (map resolve_reject (refreshAndRetryQueue st))) (length (requests st) + k) =
           Some (map resolve_reject (refreshAndRetryQueue st) ! k)"
    by (rule map_of_replays [OF r k'])
  have A: "promise_of (length (requests st) + k) (step ev st) = Some (Caller n)"
    using m k n by (simp add: s0 resume_eq promise_of_def)
  from k n have q: "Caller n \<in> set (map resolve_reject (refreshAndRetryQueue st))"
    by (metis k' nth_map nth_mem)
  then have h: "Caller n \<in> set [] \<union> set (held st)" by (simp add: held_def)
  from wfh_distinct [OF w] l q have "p \<noteq> Caller n"
    by (auto simp add: held_def lead_def)
  then have B: "Caller n \<notin> resolve_reject ` set (refreshAndRetryQueue (step ev st))"
    by (simp add: s0 resume_eq)
  from wfh_caller [OF w h] have C: "n \<notin> fst ` set (settled (step ev st))"
    by (simp add: s0 resume_eq)
  have D: "filter (\<lambda>x. fst x = n) (settled (run evs2 (step (Reply i r) s))) = [(n, Fulfilled r)]"
    if p: "promise_of i s = Some (Caller n)"
    by (rule settled_once [OF ws p _ wfh_step [OF ws]]) (simp add: step_Reply_caller [OF p] answered_def)
  have E: "filter (\<lambda>x. fst x = n) (settled (run evs2 (step (Fail i ro) s))) =
              [(n, Rejected \<lparr>config = requests s ! i, response = ro\<rparr>)]"
    if p: "promise_of i s = Some (Caller n)" and a: "\<not> is401 \<lparr>config = requests s ! i, response = ro\<rparr>"
    by (rule settled_once [OF ws p _ wfh_step [OF ws]]) (simp add: step_Fail_caller [OF p a] answered_def)
  from A B C D E show ?thesis by blast
qed


text \<open>
  An instance: the follower of the run above. Its replay is request 3; once that is answered
  with status 200, the follower's promise (call 1) is resolved with that response, once.
\<close>

theorem follower_replayed_and_settled_once_witness:
  "isRefreshing (run (leader_and_follower @ [RefreshReply (refreshed ''T2'' ''R2'')]) (init signed_in))
   \<and> \<not> isRefreshing (step (Reply 2 (answer 200))
         (run (leader_and_follower @ [RefreshReply (refreshed ''T2'' ''R2'')]) (init signed_in)))
   \<and> promise_of 3 (step (Reply 2 (answer 200))
         (run (leader_and_follower @ [RefreshReply (refreshed ''T2'' ''R2'')]) (init signed_in))) =
       Some (Caller 1)
   \<and> filter (\<lambda>x. fst x = 1) (settled (step (Reply 3 (answer 200)) (step (Reply 2 (answer 200))
         (run (leader_and_follower @ [RefreshReply (refreshed ''T2'' ''R2'')]) (init signed_in))))) =
       [(1, Fulfilled (answer 200))]"
proof -
  let ?st = "run (leader_and_follower @ [RefreshReply (refreshed ''T2'' ''R2'')]) (init signed_in)"
  let ?ev = "Reply 2 (answer 200)"
  have 1: "isRefreshing ?st" by code_simp
  have 2: "\<not> isRefreshing (step ?ev ?st)" by code_simp
  have 3: "0 < length (refreshAndRetryQueue ?st)" by code_simp
  have 4: "resolve_reject (refreshAndRetryQueue ?st ! 0) = Caller 1" by code_simp
  have 5: "length (requests ?st) = 3" by code_simp
  note t = follower_replayed_and_settled_once [OF refl 1 2 3 4 refl,
      where ?evs1.0 = "[]" and i = 3 and ?evs2.0 = "[]" and r = "answer 200"]
  from t 5 have 6: "promise_of 3 (step ?ev ?st) = Some (Caller 1)" by simp
  with t have "filter (\<lambda>x. fst x = 1) (settled (run [] (step (Reply 3 (answer 200))
      (run [] (step ?ev ?st))))) = [(1, Fulfilled (answer 200))]"
    by (simp add: run_Nil)
  with 1 2 6 show ?thesis by (simp add: run_Nil)
qed

section \<open>The header of a replayed request\<close>

text \<open>
  C9 as it is written does not hold of the code. A follower is queued with the header \<^verbatim>\<open>Bearer T1\<close>. When the
  refresh POST is refused, the store is cleared and the drain still runs: the follower's replay
  (request 2) goes out with the header it was queued with, while the store holds no token.
  And when the refresh stores T2 but the leader's retried request then fails with status 500, the
  same \<^verbatim>\<open>.catch\<close> clears the store before the drain: the replay (request 3) carries \<^verbatim>\<open>Bearer T1\<close>, not
  \<^verbatim>\<open>Bearer T2\<close>.
\<close>

theorem replay_with_stale_token:
  "headers (qconfig (refreshAndRetryQueue (run leader_and_follower (init signed_in)) ! 0))
      ''Authorization'' = Some ''Bearer T1''
   \<and> localStorage (run (leader_and_follower @ [RefreshFail refresh_refused]) (init signed_in))
      ''token'' = None
   \<and> inflight (run (leader_and_follower @ [RefreshFail refresh_refused]) (init signed_in)) =
      [(2, Caller 1)]
   \<and> headers (requests (run (leader_and_follower @ [RefreshFail refresh_refused]) (init signed_in)) ! 2)
      ''Authorization'' = Some ''Bearer T1''
   \<and> localStorage (run (leader_and_follower @ [RefreshReply (refreshed ''T2'' ''R2'')])
      (init signed_in)) ''token'' = Some ''T2''
   \<and> inflight (run (leader_and_follower @ [RefreshReply (refreshed ''T2'' ''R2''),
        Fail 2 (Some (answer 500))]) (init signed_in)) = [(3, Caller 1)]
   \<and> headers (requests (run (leader_and_follower @ [RefreshReply (refreshed ''T2'' ''R2''),
        Fail 2 (Some (answer 500))]) (init signed_in)) ! 3) ''Authorization'' = Some ''Bearer T1''"
  by code_simp

text \<open>
  C9, as the code has it. When the leader's handler goes on after its \<^verbatim>\<open>await\<close>, the replay of the
  \<open>k\<close>-th queued request carries \<^verbatim>\<open>Bearer\<close> and the access token the store holds at that moment, if
  it holds a non-empty one; otherwise its \<^verbatim>\<open>Authorization\<close> header is the one the request was
  queued with. In a run of the program where a leader waits for the refresh: if the refresh
  answers with a non-empty token and the leader's retried request is answered with a response,
  every replay carries that new token; if the refresh POST fails, the store is cleared and every
  replay keeps the header it was queued with.
\<close>

theorem replayed_request_header:
  assumes k: "k < length (refreshAndRetryQueue st)"
  shows "headers (requests (resume error p st) ! (length (requests st) + k)) ''Authorization'' =
           (case getToken (localStorage st) of
              Some token \<Rightarrow> Some (''Bearer '' @ token)
            | None \<Rightarrow> headers (qconfig (refreshAndRetryQueue st ! k)) ''Authorization'')
       \<and> (st = run evs (init ls) \<and> phase_of st = Some AwaitRefresh \<and> String_of (data_token r) \<noteq> [] \<longrightarrow>
            headers (requests (run [RefreshReply r, Reply (length (requests st)) r'] st) !
                (length (requests st) + 1 + k)) ''Authorization'' =
              Some (''Bearer '' @ String_of (data_token r)))
       \<and> (st = run evs (init ls) \<and> phase_of st = Some AwaitRefresh \<longrightarrow>
            headers (requests (run [RefreshFail e] st) ! (length (requests st) + k)) ''Authorization'' =
              headers (qconfig (refreshAndRetryQueue st ! k)) ''Authorization'')"
proof (intro conjI impI)
  show "headers (requests (resume error p st) ! (length (requests st) + k)) ''Authorization'' =
           (case getToken (localStorage st) of
              Some token \<Rightarrow> Some (''Bearer '' @ token)
            | None \<Rightarrow> headers (qconfig (refreshAndRetryQueue st ! k)) ''Authorization'')"
    by (rule resume_header [OF k])
next
  assume a: "st = run evs (init ls) \<and> phase_of st = Some AwaitRefresh \<and> String_of (data_token r) \<noteq> []"
  then have w: "wfh [] st" by (simp add: wfh_run [OF wfh_init])
  from a phase_of_leader obtain error' p' where l: "leader st = Some (error', p', AwaitRefresh)"
    by blast
  let ?s2 = "answered (length (requests st))
           ((refresh_then (config error') r st)\<lparr>leader := Some (error', p', AwaitRetry)\<rparr>)"
  have q: "refreshAndRetryQueue ?s2 = refreshAndRetryQueue st"
    by (simp add: answered_def refresh_then_def axiosInstance_def)
  have n: "length (requests ?s2) = length (requests st) + 1"
    by (simp add: answered_def refresh_then_def axiosInstance_def)
  have t: "getToken (localStorage ?s2) = Some (String_of (data_token r))"
    using a by (simp add: answered_def refresh_then_def axiosInstance_def getToken_def)
  from k q have k2: "k < length (refreshAndRetryQueue ?s2)" by simp
  from resume_header [OF k2, of error' p'] show
    "headers (requests (run [RefreshReply r, Reply (length (requests st)) r'] st) !
                (length (requests st) + 1 + k)) ''Authorization'' =
              Some (''Bearer '' @ String_of (data_token r))"
    by (simp add: retry_fulfilled [OF w l] n t)
next
  assume a: "st = run evs (init ls) \<and> phase_of st = Some AwaitRefresh"
  from a phase_of_leader obtain error' p' where l: "leader st = Some (error', p', AwaitRefresh)"
    by blast
  have 1: "run [RefreshFail e] st = resume error' p' (refresh_catch e st)"
    using l by (simp add: run_Cons run_Nil step_def)
  have k2: "k < length (refreshAndRetryQueue (refresh_catch e st))"
    using k by (simp add: refresh_catch_def)
  from resume_header [OF k2, of error' p'] show
    "headers (requests (run [RefreshFail e] st) ! (length (requests st) + k)) ''Authorization'' =
              headers (qconfig (refreshAndRetryQueue st ! k)) ''Authorization''"
    by (simp add: 1 refresh_catch_def getToken_def)
qed

text \<open>
  An instance: the follower of the run above was queued with \<^verbatim>\<open>Bearer T1\<close>. After a refresh that
  stores T2 and a fulfilled retry of the leader, its replay carries \<^verbatim>\<open>Bearer T2\<close>; after a refused
  refresh its replay carries \<^verbatim>\<open>Bearer T1\<close>.
\<close>

theorem replayed_request_header_witness:
  "phase_of (run leader_and_follower (init signed_in)) = Some AwaitRefresh
   \<and> headers (qconfig (refreshAndRetryQueue (run leader_and_follower (init signed_in)) ! 0))
        ''Authorization'' = Some ''Bearer T1''
   \<and> headers (requests (run [RefreshReply (refreshed ''T2'' ''R2''), Reply 2 (answer 200)]
        (run leader_and_follower (init signed_in))) ! 3) ''Authorization'' = Some ''Bearer T2''
   \<and> headers (requests (run [RefreshFail refresh_refused]
        (run leader_and_follower (init signed_in))) ! 2) ''Authorization'' = Some ''Bearer T1''"
proof -
  let ?st = "run leader_and_follower (init signed_in)"
  have 1: "0 < length (refreshAndRetryQueue ?st)" by code_simp
  have 2: "phase_of ?st = Some AwaitRefresh" by code_simp
  have 3: "String_of (data_token (refreshed ''T2'' ''R2'')) \<noteq> []" by code_simp
  have 4: "length (requests ?st) = 2" by code_simp
  have 5: "headers (qconfig (refreshAndRetryQueue ?st ! 0)) ''Authorization'' = Some ''Bearer T1''"
    by code_simp
  have 6: "String_of (data_token (refreshed ''T2'' ''R2'')) = ''T2''" by code_simp
  note t = replayed_request_header [OF 1, where evs = leader_and_follower and ls = signed_in
      and r = "refreshed ''T2'' ''R2''" and r' = "answer 200" and e = refresh_refused]
  from t 2 3 have "headers (requests (run [RefreshReply (refreshed ''T2'' ''R2''),
        Reply (length (requests ?st)) (answer 200)] ?st) ! (length (requests ?st) + 1 + 0))
        ''Authorization'' = Some (''Bearer '' @ String_of (data_token (refreshed ''T2'' ''R2'')))"
    by blast
  then have a: "headers (requests (run [RefreshReply (refreshed ''T2'' ''R2''), Reply 2 (answer 200)]
        ?st) ! 3) ''Authorization'' = Some ''Bearer T2''"
    by (simp add: 4 6)
  from t 2 have "headers (requests (run [RefreshFail refresh_refused] ?st) !
        (length (requests ?st) + 0)) ''Authorization'' =
      headers (qconfig (refreshAndRetryQueue ?st ! 0)) ''Authorization''"
    by blast
  then have b: "headers (requests (run [RefreshFail refresh_refused] ?st) ! 2) ''Authorization'' =
      Some ''Bearer T1''"
    by (simp add: 4 5)
  from 2 5 a b show ?thesis by simp
qed

section \<open>One more property of the event loop\<close>

text \<open>
  In every run of the program, no caller's promise has a callback invoked more than once.
\<close>

theorem callbacks_at_most_once:
  "distinct (map fst (settled (run evs (init ls))))"
  by (rule wfh_settled [OF wfh_run [OF wfh_init]])


end
